theory Spec2Isabelle
  imports Complex_Main "HOL-Library.Sublist"
begin

section \<open>Strings of the page script\<close>

text \<open>
  Strings are lists of characters. The script's \<^verbatim>\<open>toLowerCase\<close> is taken on ASCII:
  the letters A to Z are mapped to a to z and every other character is kept.
  \<^verbatim>\<open>includes\<close> is the substring test of \<^verbatim>\<open>String.prototype.includes\<close>, written as
  the scan it performs; \<^verbatim>\<open>toString\<close> is the decimal numeral of a count.
\<close>

definition lower_char :: "char \<Rightarrow> char" where
  "lower_char c =
     (case map_of (zip ''ABCDEFGHIJKLMNOPQRSTUVWXYZ'' ''abcdefghijklmnopqrstuvwxyz'') c of
        None \<Rightarrow> c
      | Some l \<Rightarrow> l)"

definition toLowerCase :: "string \<Rightarrow> string" where
  "toLowerCase s = map lower_char s"

fun str_includes :: "string \<Rightarrow> string \<Rightarrow> bool" where
  "str_includes [] q = (q = [])"
| "str_includes (c # cs) q = (prefix q (c # cs) \<or> str_includes cs q)"

definition digit :: "nat \<Rightarrow> char" where
  "digit d = ''0123456789'' ! d"

function toString :: "nat \<Rightarrow> string" where
  "toString n = (if n < 10 then [digit n] else toString (n div 10) @ [digit (n mod 10)])"
  by pat_completeness auto
termination
  by (relation "measure (\<lambda>n. n)") auto

declare toString.simps [simp del]

section \<open>The catalog: selection and search\<close>

text \<open>
  A grid item of the page, with the parts of it the script reads and writes:
  the \<^verbatim>\<open>data-name\<close> attribute (which may be absent), whether its class list holds
  \<^verbatim>\<open>selected\<close>, the \<^verbatim>\<open>checked\<close> property of its embedded checkbox, and its
  \<^verbatim>\<open>style.display\<close>. The description and image attributes are only read by the
  hover preview and are left out.
\<close>

record grid_item =
  data_name :: "string option"
  class_selected :: bool
  checkbox_checked :: bool
  style_display :: string

text \<open>
  The document as far as selection and search go: the grid items in document
  order, the text of the \<^verbatim>\<open>li\<close> children of \<^verbatim>\<open>#selected-list\<close>, and the text of
  \<^verbatim>\<open>#selected-items-count\<close> and \<^verbatim>\<open>#selected-count\<close>.
\<close>

record document =
  grid_items :: "grid_item list"
  selected_list :: "string list"
  selected_items_count :: string
  selected_count :: string

text \<open>\<^verbatim>\<open>item.getAttribute('data-name') || ''\<close>\<close>

definition name_of :: "grid_item \<Rightarrow> string" where
  "name_of item = (case data_name item of None \<Rightarrow> [] | Some n \<Rightarrow> n)"

text \<open>
  \<^verbatim>\<open>updateSelectedList\<close>: the list is emptied, then the loop over
  \<^verbatim>\<open>querySelectorAll('.grid-item.selected')\<close> appends one \<^verbatim>\<open>li\<close> per item and counts.
\<close>

definition updateSelectedList :: "document \<Rightarrow> document" where
  "updateSelectedList d =
     (let (lis, count) =
            foldl (\<lambda>(lis, count) item. (lis @ [name_of item], count + 1))
                  ([], 0::nat)
                  (filter class_selected (grid_items d))
      in d\<lparr>selected_list := lis,
            selected_items_count := toString count,
            selected_count := ''Selected: '' @ toString count\<rparr>)"

text \<open>
  \<^verbatim>\<open>toggleSelection(element, optionId)\<close>. The element is the grid item the click
  handler is attached to, given here by its position in document order; a position
  past the end names no element, and no handler runs for it.
\<close>

definition modify :: "nat \<Rightarrow> ('a \<Rightarrow> 'a) \<Rightarrow> 'a list \<Rightarrow> 'a list" where
  "modify i f xs = (if i < length xs then xs[i := f (xs ! i)] else xs)"

definition toggleSelection :: "nat \<Rightarrow> document \<Rightarrow> document" where
  "toggleSelection i d =
     updateSelectedList
       (d\<lparr>grid_items :=
            modify i (\<lambda>item. item\<lparr>class_selected := \<not> class_selected item,
                                  checkbox_checked := \<not> checkbox_checked item\<rparr>)
                   (grid_items d)\<rparr>)"

definition selectAll :: "document \<Rightarrow> document" where
  "selectAll d =
     updateSelectedList
       (d\<lparr>grid_items :=
            map (\<lambda>item. item\<lparr>class_selected := True, checkbox_checked := True\<rparr>)
                (grid_items d)\<rparr>)"

definition deselectAll :: "document \<Rightarrow> document" where
  "deselectAll d =
     updateSelectedList
       (d\<lparr>grid_items :=
            map (\<lambda>item. item\<lparr>class_selected := False, checkbox_checked := False\<rparr>)
                (grid_items d)\<rparr>)"

text \<open>
  The part of the \<^verbatim>\<open>DOMContentLoaded\<close> handler that touches the selection: an item
  whose checkbox is checked gets the class \<^verbatim>\<open>selected\<close>, and the list is rendered.
\<close>

definition DOMContentLoaded :: "document \<Rightarrow> document" where
  "DOMContentLoaded d =
     updateSelectedList
       (d\<lparr>grid_items :=
            map (\<lambda>item. if checkbox_checked item then item\<lparr>class_selected := True\<rparr> else item)
                (grid_items d)\<rparr>)"

text \<open>
  The \<^verbatim>\<open>keyup\<close> handler of the search bar; \<open>v\<close> is the value of the input field at
  that moment.
\<close>

definition searchBar_keyup :: "string \<Rightarrow> document \<Rightarrow> document" where
  "searchBar_keyup v d =
     (let query = toLowerCase v
      in d\<lparr>grid_items :=
             map (\<lambda>item.
                    let name = (case data_name item of None \<Rightarrow> [] | Some n \<Rightarrow> toLowerCase n)
                    in if str_includes name query
                       then item\<lparr>style_display := ''block''\<rparr>
                       else item\<lparr>style_display := ''none''\<rparr>)
                 (grid_items d)\<rparr>)"

text \<open>The three selection operations, for sequences of them.\<close>

datatype selection_op = Toggle nat | SelectAll | DeselectAll

fun apply_op :: "document \<Rightarrow> selection_op \<Rightarrow> document" where
  "apply_op d (Toggle i) = toggleSelection i d"
| "apply_op d SelectAll = selectAll d"
| "apply_op d DeselectAll = deselectAll d"

text \<open>
  What the claims call the selected flag is the checkbox; the rendering reads the
  class. The two agree on a page when they agree on every item.
\<close>

definition flags_agree :: "document \<Rightarrow> bool" where
  "flags_agree d = list_all (\<lambda>item. class_selected item = checkbox_checked item) (grid_items d)"

definition rendered_matches :: "document \<Rightarrow> bool" where
  "rendered_matches d =
     (selected_items_count d = toString (length (filter checkbox_checked (grid_items d))) \<and>
      selected_count d = ''Selected: '' @ toString (length (filter checkbox_checked (grid_items d))) \<and>
      selected_list d = map name_of (filter checkbox_checked (grid_items d)))"

text \<open>
  The search of the specification's words: the query is trimmed of white space at
  both ends before the case-insensitive substring match.
\<close>

definition is_space :: "char \<Rightarrow> bool" where
  "is_space c = (c \<in> set [CHR '' '', CHR 0x09, CHR 0x0A, CHR 0x0B, CHR 0x0C, CHR 0x0D])"

definition trim :: "string \<Rightarrow> string" where
  "trim s = rev (dropWhile is_space (rev (dropWhile is_space s)))"

definition spec_trimmed_match :: "string \<Rightarrow> grid_item \<Rightarrow> bool" where
  "spec_trimmed_match v item = str_includes (toLowerCase (name_of item)) (toLowerCase (trim v))"

text \<open>A small catalog to run the handlers on.\<close>

definition example_item :: "string \<Rightarrow> bool \<Rightarrow> grid_item" where
  "example_item n b =
     \<lparr>data_name = Some n, class_selected = b, checkbox_checked = b, style_display = []\<rparr>"

definition example_catalog :: document where
  "example_catalog =
     \<lparr>grid_items = [example_item ''Apple'' False, example_item ''Bread'' True,
                    example_item ''Cake'' False],
      selected_list = [], selected_items_count = [], selected_count = []\<rparr>"

section \<open>The download button and the submission handler\<close>

subsection \<open>Elements, the button's subtree and the store\<close>

text \<open>
  Elements are objects: the handler keeps references to the spinner, the ring and
  the circle and writes to them whether or not they are attached to the button. An
  element is therefore a reference into a store of properties, and the tree under
  the button is kept as a tree of text nodes and element references.
\<close>

type_synonym ref = nat

datatype node = Text string | Elem ref "node list"

record props =
  tagName :: string
  classList :: "string list"
  disabled :: bool
  display :: string
  strokeDashoffset :: "rat option"

definition blank :: "string \<Rightarrow> props" where
  "blank tag =
     \<lparr>tagName = tag, classList = [], disabled = False, display = [], strokeDashoffset = None\<rparr>"

text \<open>
  The \<^verbatim>\<open>textContent\<close> getter of the DOM: the concatenation of the text of all text
  node descendants, in tree order.
\<close>

fun textContent :: "node \<Rightarrow> string" where
  "textContent (Text s) = s"
| "textContent (Elem r kids) = concat (map textContent kids)"

text \<open>The element descendants of a node (the node itself first), in tree order.\<close>

fun elements :: "node \<Rightarrow> (ref \<times> node list) list" where
  "elements (Text s) = []"
| "elements (Elem r kids) = (r, kids) # concat (map elements kids)"

definition descendants :: "node list \<Rightarrow> (ref \<times> node list) list" where
  "descendants kids = concat (map elements kids)"

text \<open>
  \<^verbatim>\<open>querySelector\<close> on an element with children \<open>kids\<close>: the first element
  descendant, in tree order, that the selector matches.
\<close>

definition querySelector ::
    "(props \<Rightarrow> bool) \<Rightarrow> (ref \<Rightarrow> props) \<Rightarrow> node list \<Rightarrow> (ref \<times> node list) option" where
  "querySelector sel st kids = find (\<lambda>(r, ks). sel (st r)) (descendants kids)"

definition has_class :: "string \<Rightarrow> props \<Rightarrow> bool" where
  "has_class c e = (c \<in> set (classList e))"

definition has_tag :: "string \<Rightarrow> props \<Rightarrow> bool" where
  "has_tag t e = (tagName e = t)"

text \<open>\<^verbatim>\<open>remove()\<close> of the element \<open>r\<close>, seen from the tree it may be in.\<close>

definition is_elem :: "ref \<Rightarrow> node \<Rightarrow> bool" where
  "is_elem r n = (case n of Text s \<Rightarrow> False | Elem q kids \<Rightarrow> q = r)"

fun prune :: "ref \<Rightarrow> node \<Rightarrow> node" where
  "prune r (Text s) = Text s"
| "prune r (Elem q kids) = Elem q (filter (\<lambda>n. \<not> is_elem r n) (map (prune r) kids))"

definition remove_from :: "ref \<Rightarrow> node list \<Rightarrow> node list" where
  "remove_from r kids = filter (\<lambda>n. \<not> is_elem r n) (map (prune r) kids)"

subsection \<open>The page and the closure of one submission\<close>

text \<open>
  The repository holds the handler twice, in \<^verbatim>\<open>static/src/script.ts\<close> and in
  \<^verbatim>\<open>static/script.js\<close>. The two differ in one point that matters here: the
  TypeScript declares \<^verbatim>\<open>originalText\<close> before the \<^verbatim>\<open>try\<close>, the JavaScript inside it,
  where the \<^verbatim>\<open>catch\<close> block does not see it.
\<close>

datatype script = Script_ts | Script_js

datatype reset = Success_reset | Error_reset

text \<open>
  Where an invocation of the asynchronous handler stands: suspended at
  \<^verbatim>\<open>await fetch\<close>, suspended at \<^verbatim>\<open>await response.blob()\<close>, returned with a
  \<^verbatim>\<open>setTimeout\<close> callback pending (with its delay in milliseconds), or done with
  that callback run as well.
\<close>

datatype pc = Awaiting_fetch | Awaiting_blob | Awaiting_timeout nat reset | Returned

datatype error = ReferenceError | TypeError

text \<open>
  The variables of one invocation. \<open>ring\<close> is the ring element with the subtree it
  had when it was found or created. \<open>circumference\<close> is the number computed from the
  circle's \<^verbatim>\<open>r\<close> attribute; floating point is not modelled, and the number comes with
  the submit event as a rational. \<open>progressInterval\<close> holds the period of the interval
  timer while it is registered and \<open>None\<close> before it is set and once it is cleared.
\<close>

record run =
  spinner :: ref
  ring :: "ref \<times> node list"
  originalText :: string
  circle :: "ref option"
  circumference :: rat
  progress :: nat
  progressInterval :: "nat option"
  contentDisposition :: "string option"
  pc :: pc

text \<open>
  The page: which script it loads, the store, the next unused reference, the button
  and its children, the invocations of the submit handler so far, the file names of
  the saves triggered, and the exceptions no handler caught.
\<close>

record page =
  script :: script
  store :: "ref \<Rightarrow> props"
  next_ref :: ref
  button :: ref
  childNodes :: "node list"
  runs :: "run list"
  saved :: "string list"
  uncaught :: "error list"

definition createElement :: "string \<Rightarrow> page \<Rightarrow> ref \<times> page" where
  "createElement tag p =
     (next_ref p, p\<lparr>store := (store p)(next_ref p := blank tag), next_ref := Suc (next_ref p)\<rparr>)"

definition update_props :: "ref \<Rightarrow> (props \<Rightarrow> props) \<Rightarrow> page \<Rightarrow> page" where
  "update_props r f p = p\<lparr>store := (store p)(r := f (store p r))\<rparr>"

text \<open>\<^verbatim>\<open>button.appendChild(n)\<close> for a node that has no parent yet.\<close>

definition appendChild :: "node \<Rightarrow> page \<Rightarrow> page" where
  "appendChild n p = p\<lparr>childNodes := childNodes p @ [n]\<rparr>"

text \<open>
  The \<^verbatim>\<open>textContent\<close> setter of the DOM on the button: all children are removed and,
  unless the string is empty, one text node with the string is put in their place.
\<close>

definition set_textContent :: "string \<Rightarrow> page \<Rightarrow> page" where
  "set_textContent s p = p\<lparr>childNodes := (if s = [] then [] else [Text s])\<rparr>"

definition classList_add :: "string \<Rightarrow> page \<Rightarrow> page" where
  "classList_add c p =
     update_props (button p)
       (\<lambda>e. e\<lparr>classList := (if c \<in> set (classList e) then classList e else classList e @ [c])\<rparr>) p"

definition classList_remove :: "string \<Rightarrow> page \<Rightarrow> page" where
  "classList_remove c p =
     update_props (button p) (\<lambda>e. e\<lparr>classList := removeAll c (classList e)\<rparr>) p"

text \<open>
  \<^verbatim>\<open>createProgressRing\<close>: an \<^verbatim>\<open>svg\<close> element of class \<^verbatim>\<open>progress-ring\<close> whose
  \<^verbatim>\<open>innerHTML\<close> is the template of the source: white space, one \<^verbatim>\<open>circle\<close>, white
  space. The numeric attributes are not kept (see \<open>circumference\<close> above).
\<close>

definition createProgressRing :: "page \<Rightarrow> (ref \<times> node list) \<times> page" where
  "createProgressRing p =
     (let (svg, p1) = createElement ''svg'' p;
          p2 = update_props svg (\<lambda>e. e\<lparr>classList := [''progress-ring'']\<rparr>) p1;
          (ci, p3) = createElement ''circle'' p2
      in ((svg, [Text (CHR 0x0A # ''    ''), Elem ci [], Text (CHR 0x0A # ''  '')]), p3))"

subsection \<open>The handler, piece by piece\<close>

text \<open>
  The \<^verbatim>\<open>catch\<close> block: the error treatment and the reset callback registered with a
  delay of 1500. It does not touch the interval timer.
\<close>

definition catch_block :: "run \<Rightarrow> page \<Rightarrow> run \<times> page" where
  "catch_block r p =
     (let p1 = classList_remove ''loading'' p;
          p2 = classList_add ''error'' p1;
          p3 = set_textContent ''Error! Try Again'' p2
      in (r\<lparr>pc := Awaiting_timeout 1500 Error_reset\<rparr>, p3))"

text \<open>
  The first lines of the handler, up to the ring: the spinner is created, the ring is
  looked up under the button and created and appended only when there is none.
\<close>

definition find_or_create_ring :: "page \<Rightarrow> (ref \<times> (ref \<times> node list)) \<times> page" where
  "find_or_create_ring p =
     (let (sp, p1) = createElement ''div'' p;
          p2 = update_props sp (\<lambda>e. e\<lparr>classList := [''spinner'']\<rparr>) p1
      in case querySelector (has_class ''progress-ring'') (store p2) (childNodes p2) of
           Some rg \<Rightarrow> ((sp, rg), p2)
         | None \<Rightarrow>
             (let (rg, p3) = createProgressRing p2;
                  p4 = appendChild (Elem (fst rg) (snd rg)) p3
              in ((sp, rg), p4)))"

text \<open>
  The start of the animation: the button is disabled, gets the class \<^verbatim>\<open>loading\<close> and
  the spinner as its last child, and the spinner is displayed.
\<close>

definition start_animation :: "ref \<Rightarrow> page \<Rightarrow> page" where
  "start_animation sp p =
     (let p1 = update_props (button p) (\<lambda>e. e\<lparr>disabled := True\<rparr>) p;
          p2 = classList_add ''loading'' p1;
          p3 = appendChild (Elem sp []) p2
      in update_props sp (\<lambda>e. e\<lparr>display := ''block''\<rparr>) p3)"

text \<open>
  The handler from the submit event to its first suspension. \<^verbatim>\<open>originalText\<close> is
  read where the TypeScript reads it, after the ring is in place; the JavaScript
  reads it after the spinner is appended, which gives the same string. When the ring
  found has no \<^verbatim>\<open>circle\<close>, \<^verbatim>\<open>circle.getAttribute\<close> throws inside the \<^verbatim>\<open>try\<close> and the
  \<^verbatim>\<open>catch\<close> block runs at once: no timer is set and no request is made.
\<close>

definition onsubmit :: "rat \<Rightarrow> page \<Rightarrow> page" where
  "onsubmit c p =
     (let ((sp, rg), p1) = find_or_create_ring p;
          txt = concat (map textContent (childNodes p1));
          p2 = start_animation sp p1;
          p3 = set_textContent ''Generating...'' p2;
          r = \<lparr>spinner = sp, ring = rg, originalText = txt, circle = None,
               circumference = c, progress = 0, progressInterval = None,
               contentDisposition = None, pc = Awaiting_fetch\<rparr>
      in case querySelector (has_tag ''circle'') (store p3) (snd rg) of
           None \<Rightarrow> (let (r', p4) = catch_block r p3 in p4\<lparr>runs := runs p4 @ [r']\<rparr>)
         | Some (ci, kids) \<Rightarrow>
             p3\<lparr>runs := runs p3 @ [r\<lparr>circle := Some ci, progressInterval := Some 20\<rparr>]\<rparr>)"

text \<open>
  The interval callback. The timer is registered only after the circle was found, so
  the closure of a ticking timer always has its circle.
\<close>

definition set_offset :: "ref option \<Rightarrow> rat \<Rightarrow> page \<Rightarrow> page" where
  "set_offset ci v p =
     (case ci of
        None \<Rightarrow> p
      | Some c \<Rightarrow> update_props c (\<lambda>e. e\<lparr>strokeDashoffset := Some v\<rparr>) p)"

text \<open>\<^verbatim>\<open>circumference - (progress / 100) * circumference\<close>\<close>

definition ring_offset :: "rat \<Rightarrow> nat \<Rightarrow> rat" where
  "ring_offset c n = c - (of_nat n / 100) * c"

definition tick :: "run \<Rightarrow> page \<Rightarrow> run \<times> page" where
  "tick r p =
     (let progress' = progress r + 2;
          offset = ring_offset (circumference r) progress';
          p1 = set_offset (circle r) offset p
      in (r\<lparr>progress := progress',
            progressInterval := (if progress' \<ge> 100 then None else progressInterval r)\<rparr>, p1))"

text \<open>
  The continuation after \<^verbatim>\<open>await fetch\<close>, for a response with the given \<^verbatim>\<open>ok\<close> flag
  and \<^verbatim>\<open>content-disposition\<close> header, and for a rejected request.
\<close>

definition fetch_resolved :: "bool \<Rightarrow> string option \<Rightarrow> run \<Rightarrow> page \<Rightarrow> run \<times> page" where
  "fetch_resolved ok header r p =
     (if \<not> ok then catch_block r p
      else
        (let p1 = set_offset (circle r) 0 p;
             p2 = classList_remove ''loading'' p1;
             p3 = classList_add ''success'' p2;
             p4 = set_textContent ''Download Starting...'' p3
         in (r\<lparr>progressInterval := None, contentDisposition := header, pc := Awaiting_blob\<rparr>,
             p4)))"

definition fetch_rejected :: "run \<Rightarrow> page \<Rightarrow> run \<times> page" where
  "fetch_rejected r p = catch_block r p"

subsection \<open>The name of the saved file\<close>

text \<open>
  \<^verbatim>\<open>s.split(sep)\<close> for a separator that is not empty: the string is scanned from the
  left, and each occurrence of the separator found ends a piece and is skipped.
\<close>

function split_from :: "string \<Rightarrow> string \<Rightarrow> string \<Rightarrow> string list" where
  "split_from sep acc s =
     (if s = [] then [rev acc]
      else if sep \<noteq> [] \<and> prefix sep s then rev acc # split_from sep [] (drop (length sep) s)
      else split_from sep (hd s # acc) (tl s))"
  by pat_completeness auto
termination
  by (relation "measure (\<lambda>(sep, acc, s). length s)") auto

declare split_from.simps [simp del]

definition split :: "string \<Rightarrow> string \<Rightarrow> string list" where
  "split sep s = split_from sep [] s"

text \<open>
  \<^verbatim>\<open>contentDisposition?.split('filename=')[1] || 'datapack.zip'\<close>: a missing header,
  a missing second piece and an empty second piece all give the default.
\<close>

definition download_name :: "string option \<Rightarrow> string" where
  "download_name header =
     (case header of
        None \<Rightarrow> ''datapack.zip''
      | Some h \<Rightarrow>
          (case split ''filename='' h of
             piece0 # piece1 # rest \<Rightarrow> if piece1 = [] then ''datapack.zip'' else piece1
           | _ \<Rightarrow> ''datapack.zip''))"


text \<open>
  The continuation after \<^verbatim>\<open>await response.blob()\<close>: the anchor is created, given
  its \<^verbatim>\<open>download\<close> name and clicked, which saves the file under that name; the anchor
  is appended to and removed from the document body, which leaves the body as it
  was. Then the reset callback is registered with a delay of 1000.
\<close>

definition blob_resolved :: "run \<Rightarrow> page \<Rightarrow> run \<times> page" where
  "blob_resolved r p =
     (let (a, p1) = createElement ''a'' p;
          p2 = p1\<lparr>saved := saved p1 @ [download_name (contentDisposition r)]\<rparr>
      in (r\<lparr>pc := Awaiting_timeout 1000 Success_reset\<rparr>, p2))"

definition blob_rejected :: "run \<Rightarrow> page \<Rightarrow> run \<times> page" where
  "blob_rejected r p = catch_block r p"

text \<open>
  The two reset callbacks. In the JavaScript file the callback of the \<^verbatim>\<open>catch\<close> block
  reads \<^verbatim>\<open>originalText\<close> outside the block that declares it: the read throws a
  \<^verbatim>\<open>ReferenceError\<close> and the rest of the callback does not run.
\<close>

definition reset_button :: "string \<Rightarrow> run \<Rightarrow> page \<Rightarrow> page" where
  "reset_button cls r p =
     (let p1 = update_props (button p) (\<lambda>e. e\<lparr>disabled := False\<rparr>) p;
          p2 = classList_remove cls p1;
          p3 = set_textContent (originalText r) p2;
          p4 = update_props (spinner r) (\<lambda>e. e\<lparr>display := ''none''\<rparr>) p3
      in p4\<lparr>childNodes := remove_from (fst (ring r)) (childNodes p4)\<rparr>)"

definition timeout_fired :: "reset \<Rightarrow> run \<Rightarrow> page \<Rightarrow> run \<times> page" where
  "timeout_fired k r p =
     (case k of
        Success_reset \<Rightarrow> (r\<lparr>pc := Returned\<rparr>, reset_button ''success'' r p)
      | Error_reset \<Rightarrow>
          (case script p of
             Script_ts \<Rightarrow> (r\<lparr>pc := Returned\<rparr>, reset_button ''error'' r p)
           | Script_js \<Rightarrow>
               (let p1 = update_props (button p) (\<lambda>e. e\<lparr>disabled := False\<rparr>) p;
                    p2 = classList_remove ''error'' p1
                in (r\<lparr>pc := Returned\<rparr>, p2\<lparr>uncaught := uncaught p2 @ [ReferenceError]\<rparr>))))"

subsection \<open>The event loop\<close>

text \<open>
  The callbacks run to completion, one at a time, in the order the events arrive.
  An event is enabled only when its callback is registered: a tick while the
  interval of that invocation is set, a settlement while the invocation awaits it,
  a timeout while the reset callback is pending.
\<close>

datatype event =
    Submit rat
  | Tick nat
  | Fetch_resolved nat bool "string option"
  | Fetch_rejected nat
  | Blob_resolved nat
  | Blob_rejected nat
  | Timeout nat

definition resume :: "(run \<Rightarrow> page \<Rightarrow> run \<times> page) \<Rightarrow> nat \<Rightarrow> page \<Rightarrow> page" where
  "resume h i p = (let (r, p1) = h (runs p ! i) p in p1\<lparr>runs := (runs p1)[i := r]\<rparr>)"

definition at_pc :: "nat \<Rightarrow> pc \<Rightarrow> page \<Rightarrow> bool" where
  "at_pc i c p = (i < length (runs p) \<and> pc (runs p ! i) = c)"

fun step :: "event \<Rightarrow> page \<Rightarrow> page option" where
  "step (Submit c) p = Some (onsubmit c p)"
| "step (Tick i) p =
     (if i < length (runs p) \<and> progressInterval (runs p ! i) \<noteq> None
      then Some (resume tick i p) else None)"
| "step (Fetch_resolved i ok header) p =
     (if at_pc i Awaiting_fetch p then Some (resume (fetch_resolved ok header) i p) else None)"
| "step (Fetch_rejected i) p =
     (if at_pc i Awaiting_fetch p then Some (resume fetch_rejected i p) else None)"
| "step (Blob_resolved i) p =
     (if at_pc i Awaiting_blob p then Some (resume blob_resolved i p) else None)"
| "step (Blob_rejected i) p =
     (if at_pc i Awaiting_blob p then Some (resume blob_rejected i p) else None)"
| "step (Timeout i) p =
     (if i < length (runs p)
      then (case pc (runs p ! i) of
              Awaiting_timeout delay k \<Rightarrow> Some (resume (timeout_fired k) i p)
            | _ \<Rightarrow> None)
      else None)"

fun exec :: "event list \<Rightarrow> page \<Rightarrow> page option" where
  "exec [] p = Some p"
| "exec (e # es) p = (case step e p of None \<Rightarrow> None | Some p1 \<Rightarrow> exec es p1)"

text \<open>
  What the ring of invocation \<open>i\<close> shows: it shows \<open>n\<close> percent when the offset of its
  circle is the one the progress value \<open>n\<close> gives.
\<close>

definition ring_shows :: "nat \<Rightarrow> nat \<Rightarrow> page \<Rightarrow> bool" where
  "ring_shows i n p =
     (case circle (runs p ! i) of
        None \<Rightarrow> False
      | Some ci \<Rightarrow>
          strokeDashoffset (store p ci) = Some (ring_offset (circumference (runs p ! i)) n))"

text \<open>A page with a button labelled \<^verbatim>\<open>Download\<close> and nothing submitted yet.\<close>

definition example_page :: "script \<Rightarrow> page" where
  "example_page sc =
     \<lparr>script = sc, store = (\<lambda>r. blank ''button''), next_ref = 1, button = 0,
      childNodes = [Text ''Download''], runs = [], saved = [], uncaught = []\<rparr>"

text \<open>
  What holds of the variables of every invocation, whatever events have run: the
  progress counter is even and at most 100; a registered interval has period 20 and a
  counter still below 100; and an invocation that is suspended or ticking has its
  circle.
\<close>

definition run_ok :: "run \<Rightarrow> bool" where
  "run_ok r =
     (progress r \<le> 100 \<and> even (progress r) \<and>
      (progressInterval r \<noteq> None \<longrightarrow> progressInterval r = Some 20 \<and> progress r < 100) \<and>
      (progressInterval r \<noteq> None \<or> pc r = Awaiting_fetch \<or> pc r = Awaiting_blob
         \<longrightarrow> circle r \<noteq> None))"

text \<open>
  The file name of the specification's words: the substring of the header after
  \<^verbatim>\<open>filename=\<close>, and the default name when the header or the token is missing.
\<close>

fun spec_after_first :: "string \<Rightarrow> string \<Rightarrow> string option" where
  "spec_after_first tok [] = None"
| "spec_after_first tok (c # cs) =
     (if prefix tok (c # cs) then Some (drop (length tok) (c # cs)) else spec_after_first tok cs)"

definition spec_download_name :: "string option \<Rightarrow> string" where
  "spec_download_name header =
     (case header of
        None \<Rightarrow> ''datapack.zip''
      | Some h \<Rightarrow> (case spec_after_first ''filename='' h of
                    None \<Rightarrow> ''datapack.zip''
                  | Some n \<Rightarrow> n))"

subsection \<open>Counting the children of the button\<close>

text \<open>
  The children of the button that are elements of a given class; the page on which
  every element under the button was allocated before the next unused reference;
  and a list of children without elements.
\<close>

definition elem_of_class :: "string \<Rightarrow> (ref \<Rightarrow> props) \<Rightarrow> node \<Rightarrow> bool" where
  "elem_of_class c st n = (case n of Text s \<Rightarrow> False | Elem r kids \<Rightarrow> has_class c (st r))"

definition children_of_class :: "string \<Rightarrow> page \<Rightarrow> node list" where
  "children_of_class c p = filter (elem_of_class c (store p)) (childNodes p)"

definition fresh_refs :: "page \<Rightarrow> bool" where
  "fresh_refs p = list_all (\<lambda>(r, kids). r < next_ref p) (descendants (childNodes p))"

definition text_only :: "node list \<Rightarrow> bool" where
  "text_only kids = list_all (\<lambda>n. case n of Text s \<Rightarrow> True | Elem r ks \<Rightarrow> False) kids"

text \<open>
  How one callback may leave the button: with text and nothing else under it, or
  with the children it had, no reference taken back and no class gained by any
  element.
\<close>

definition unchanged_or_text :: "page \<Rightarrow> page \<Rightarrow> bool" where
  "unchanged_or_text p p' =
     (text_only (childNodes p') \<or>
      (childNodes p' = childNodes p \<and> next_ref p \<le> next_ref p' \<and>
       (\<forall>r c. has_class c (store p' r) \<longrightarrow> has_class c (store p r))))"

text \<open>
  The page once the spinner of a new invocation is created, and the ring that
  \<^verbatim>\<open>createProgressRing\<close> builds right after.
\<close>

definition with_spinner :: "page \<Rightarrow> page" where
  "with_spinner p =
     p\<lparr>store := (store p)(next_ref p := (blank ''div'')\<lparr>classList := [''spinner'']\<rparr>),
       next_ref := Suc (next_ref p)\<rparr>"

definition new_ring :: "page \<Rightarrow> ref \<times> node list" where
  "new_ring p =
     (Suc (next_ref p),
      [Text (CHR 0x0A # ''    ''), Elem (Suc (Suc (next_ref p))) [], Text (CHR 0x0A # ''  '')])"

text \<open>A page whose markup already puts a progress ring under the button.\<close>

definition example_page_with_ring :: page where
  "example_page_with_ring =
     \<lparr>script = Script_ts,
      store = (\<lambda>r. if r = 1 then (blank ''svg'')\<lparr>classList := [''progress-ring'']\<rparr>
                    else if r = 2 then blank ''circle'' else blank ''button''),
      next_ref = 3, button = 0,
      childNodes = [Text ''Download'', Elem 1 [Elem 2 []]],
      runs = [], saved = [], uncaught = []\<rparr>"

section \<open>Collapsible panels\<close>

text \<open>
  \<^verbatim>\<open>style.height\<close> of a panel: empty, that is automatic, or a number of pixels.
\<close>

datatype height = Auto | Px nat

text \<open>
  The two function expressions named \<^verbatim>\<open>handler\<close>: the one registered when the panel
  was open at the click, which removes the \<^verbatim>\<open>open\<close> attribute, and the one registered
  when it was closed.
\<close>

datatype completion = Collapse_done | Expand_done

text \<open>
  One \<^verbatim>\<open>details\<close> element: its \<^verbatim>\<open>open\<close> attribute, the two style properties the
  script writes, the \<^verbatim>\<open>requestAnimationFrame\<close> callbacks not yet run (each sets the
  height), and its \<^verbatim>\<open>transitionend\<close> listeners in the order of registration. Every
  click creates a new function object; the number given to a listener stands for that
  identity. \<open>invoked\<close> is not part of the page: it records the listeners in the order
  they were called.
\<close>

record panel =
  has_open :: bool
  style_height :: height
  style_transition :: string
  frames :: "height list"
  listeners :: "(nat \<times> completion) list"
  next_listener :: nat
  invoked :: "nat list"

text \<open>
  The click handler of a panel's summary. The two numbers are what
  \<^verbatim>\<open>summary.offsetHeight\<close> and \<^verbatim>\<open>detailsElement.scrollHeight\<close> return when the handler
  reads them.
\<close>

definition click :: "nat \<Rightarrow> nat \<Rightarrow> panel \<Rightarrow> panel" where
  "click summaryHeight fullHeight d =
     (if has_open d
      then d\<lparr>style_height := Px fullHeight,
              style_transition := ''height 0.3s ease'',
              frames := frames d @ [Px summaryHeight],
              listeners := listeners d @ [(next_listener d, Collapse_done)],
              next_listener := Suc (next_listener d)\<rparr>
      else d\<lparr>has_open := True,
              style_height := Px summaryHeight,
              style_transition := ''height 0.3s ease'',
              frames := frames d @ [Px fullHeight],
              listeners := listeners d @ [(next_listener d, Expand_done)],
              next_listener := Suc (next_listener d)\<rparr>)"

text \<open>A frame: the callbacks requested since the last one run in order.\<close>

definition animation_frame :: "panel \<Rightarrow> panel" where
  "animation_frame d = foldl (\<lambda>d h. d\<lparr>style_height := h\<rparr>) (d\<lparr>frames := []\<rparr>) (frames d)"

text \<open>
  The body of a completion handler: it closes the panel when it was registered for a
  collapse, clears the two style properties, and removes itself from the listeners.
\<close>

definition handler :: "nat \<times> completion \<Rightarrow> panel \<Rightarrow> panel" where
  "handler l d =
     (let d1 = (case snd l of Collapse_done \<Rightarrow> d\<lparr>has_open := False\<rparr> | Expand_done \<Rightarrow> d)
      in d1\<lparr>style_height := Auto, style_transition := [],
            listeners := filter (\<lambda>k. fst k \<noteq> fst l) (listeners d1),
            invoked := invoked d1 @ [fst l]\<rparr>)"

text \<open>
  A \<^verbatim>\<open>transitionend\<close> event on the panel: the listeners registered when the event
  is dispatched are called in order, each unless it was removed meanwhile.
\<close>

definition transitionend :: "panel \<Rightarrow> panel" where
  "transitionend d =
     foldl (\<lambda>d l. if l \<in> set (listeners d) then handler l d else d) d (listeners d)"

datatype panel_event = Click nat nat | Frame | Transitionend

fun panel_step :: "panel \<Rightarrow> panel_event \<Rightarrow> panel" where
  "panel_step d (Click summaryHeight fullHeight) = click summaryHeight fullHeight d"
| "panel_step d Frame = animation_frame d"
| "panel_step d Transitionend = transitionend d"

text \<open>A panel as rendered, open or closed, before any click.\<close>

definition new_panel :: "bool \<Rightarrow> panel" where
  "new_panel b =
     \<lparr>has_open = b, style_height = Auto, style_transition = [], frames = [], listeners = [],
      next_listener = 0, invoked = []\<rparr>"

text \<open>
  What holds of a panel after any events: the listeners that are registered and the
  listeners that were called are all different, and together they are the listeners
  ever registered.
\<close>

definition is_click :: "panel_event \<Rightarrow> bool" where
  "is_click e = (case e of Click s f \<Rightarrow> True | _ \<Rightarrow> False)"

definition panel_ok :: "panel \<Rightarrow> bool" where
  "panel_ok d =
     (distinct (map fst (listeners d) @ invoked d) \<and>
      set (map fst (listeners d)) \<union> set (invoked d) = {..<next_listener d})"


section \<open>Selection: the rendering follows the flags\<close>

lemma render_loop:
  "foldl (\<lambda>(lis, count) item. (lis @ [name_of item], count + 1)) (acc, k) xs
     = (acc @ map name_of xs, k + length xs)"
  by (induction xs arbitrary: acc k) auto

lemma updateSelectedList_fields:
  "selected_list (updateSelectedList d) = map name_of (filter class_selected (grid_items d))"
  "selected_items_count (updateSelectedList d)
     = toString (length (filter class_selected (grid_items d)))"
  "selected_count (updateSelectedList d)
     = ''Selected: '' @ toString (length (filter class_selected (grid_items d)))"
  "grid_items (updateSelectedList d) = grid_items d"
  unfolding updateSelectedList_def render_loop by simp_all

lemma modify_length [simp]: "length (modify i f xs) = length xs"
  by (simp add: modify_def)

lemma list_all_modify:
  "list_all P xs \<Longrightarrow> (\<And>x. P x \<Longrightarrow> P (f x)) \<Longrightarrow> list_all P (modify i f xs)"
  by (auto simp: modify_def list_all_length nth_list_update)

lemma flags_agree_update [simp]: "flags_agree (updateSelectedList d) = flags_agree d"
  by (simp add: flags_agree_def updateSelectedList_fields)

lemma flags_agree_op: "flags_agree d \<Longrightarrow> flags_agree (apply_op d op)"
proof (cases op)
  case (Toggle i)
  assume "flags_agree d"
  then have "list_all (\<lambda>item. class_selected item = checkbox_checked item)
     (modify i (\<lambda>item. item\<lparr>class_selected := \<not> class_selected item,
                                  checkbox_checked := \<not> checkbox_checked item\<rparr>) (grid_items d))"
    unfolding flags_agree_def by (rule list_all_modify) simp
  then show ?thesis
    by (simp add: Toggle toggleSelection_def flags_agree_def updateSelectedList_fields)
next
  case SelectAll
  then show ?thesis
    by (simp add: selectAll_def flags_agree_def updateSelectedList_fields list_all_iff)
next
  case DeselectAll
  then show ?thesis
    by (simp add: deselectAll_def flags_agree_def updateSelectedList_fields list_all_iff)
qed

lemma flags_agree_ops: "flags_agree d \<Longrightarrow> flags_agree (foldl apply_op d ops)"
  by (induction ops arbitrary: d) (auto simp: flags_agree_op)

lemma filter_agree:
  "flags_agree d \<Longrightarrow>
     filter class_selected (grid_items d) = filter checkbox_checked (grid_items d)"
  by (auto simp: flags_agree_def list_all_iff intro: filter_cong)

lemma rendered_update: "flags_agree d \<Longrightarrow> rendered_matches (updateSelectedList d)"
  by (simp add: rendered_matches_def updateSelectedList_fields filter_agree)

lemma op_is_update: "\<exists>d'. apply_op d op = updateSelectedList d'"
  by (cases op) (auto simp: toggleSelection_def selectAll_def deselectAll_def)

text \<open>Whatever the page, an operation returns with the list and count of the items of class
  \<^verbatim>\<open>selected\<close>.\<close>

lemma rendering_follows_class:
  "selected_list (apply_op d op) = map name_of (filter class_selected (grid_items (apply_op d op))) \<and>
   selected_items_count (apply_op d op)
     = toString (length (filter class_selected (grid_items (apply_op d op))))"
proof -
  obtain d' where d': "apply_op d op = updateSelectedList d'"
    using op_is_update by blast
  show ?thesis unfolding d' by (simp add: updateSelectedList_fields)
qed

text \<open>
  The page load leaves class and checkbox in agreement, and the list rendered, when
  the markup marks no unchecked item as selected.
\<close>

lemma DOMContentLoaded_agrees:
  assumes "list_all (\<lambda>item. class_selected item \<longrightarrow> checkbox_checked item) (grid_items d)"
  shows "flags_agree (DOMContentLoaded d) \<and> rendered_matches (DOMContentLoaded d)"
proof -
  let ?d = "d\<lparr>grid_items :=
            map (\<lambda>item. if checkbox_checked item then item\<lparr>class_selected := True\<rparr> else item)
                (grid_items d)\<rparr>"
  have "flags_agree ?d"
    using assms by (auto simp: flags_agree_def list_all_iff)
  then show ?thesis
    by (simp add: DOMContentLoaded_def rendered_update)
qed

text \<open>
  Claim C4. On a page where every item's class \<^verbatim>\<open>selected\<close> agrees with its checkbox
  (as the page load leaves it), after any sequence \<open>ops\<close> of toggle, select-all and
  deselect-all operations and one more operation \<open>op\<close>, the moment \<open>op\<close> returns the
  rendered count is the decimal numeral of the number of checked entries, and the
  rendered list is the display names of exactly those entries in document order. The
  rendering is done by the operation itself, before it returns.
\<close>

theorem rendering_follows_selection:
  assumes "flags_agree d"
  shows "rendered_matches (apply_op (foldl apply_op d ops) op)"
proof -
  have a: "flags_agree (apply_op (foldl apply_op d ops) op)"
    using assms by (simp add: flags_agree_ops flags_agree_op)
  obtain d' where d': "apply_op (foldl apply_op d ops) op = updateSelectedList d'"
    using op_is_update by blast
  with a have "flags_agree d'" by simp
  then show ?thesis unfolding d' by (rule rendered_update)
qed

text \<open>Claim C4 on the example catalog: toggle the first item, deselect all, toggle the third.\<close>

theorem rendering_follows_selection_witness:
  "flags_agree example_catalog \<and>
   rendered_matches (apply_op (foldl apply_op example_catalog [Toggle 0, DeselectAll]) (Toggle 2))"
proof -
  have h: "flags_agree example_catalog"
    by (simp add: flags_agree_def example_catalog_def example_item_def)
  from rendering_follows_selection [OF h, of "[Toggle 0, DeselectAll]" "Toggle 2"]
  show ?thesis using h by simp
qed

section \<open>Search: visibility only\<close>

lemma str_includes_sublist: "str_includes s q = sublist q s"
  by (induction s) (auto simp: sublist_Cons_right)

lemma toLowerCase_name:
  "(case data_name item of None \<Rightarrow> [] | Some n \<Rightarrow> toLowerCase n) = toLowerCase (name_of item)"
  by (simp add: name_of_def toLowerCase_def split: option.splits)

lemma keyup_items:
  "grid_items (searchBar_keyup v d) =
     map (\<lambda>item. item\<lparr>style_display :=
            (if sublist (toLowerCase v) (toLowerCase (name_of item)) then ''block'' else ''none'')\<rparr>)
         (grid_items d)"
  by (simp add: searchBar_keyup_def Let_def toLowerCase_name str_includes_sublist if_distrib
      cong: if_cong)

text \<open>
  Claim C5, as the handler has it. The value of the search field is lower-cased and
  not trimmed; an item is shown (\<^verbatim>\<open>display\<close> set to \<^verbatim>\<open>block\<close>) exactly when the lower-cased
  value occurs as a contiguous substring of its lower-cased display name, and hidden
  (\<^verbatim>\<open>none\<close>) otherwise; nothing else of the item changes. The empty value shows every
  item.
\<close>

theorem searchBar_keyup_visibility:
  "grid_items (searchBar_keyup v d) =
     map (\<lambda>item. item\<lparr>style_display :=
            (if sublist (toLowerCase v) (toLowerCase (name_of item)) then ''block'' else ''none'')\<rparr>)
         (grid_items d) \<and>
   list_all (\<lambda>item. style_display item = ''block'') (grid_items (searchBar_keyup [] d))"
  by (simp add: keyup_items list_all_iff toLowerCase_def)

text \<open>Claim C5 on the example catalog: the value \<^verbatim>\<open>CA\<close> shows only \<^verbatim>\<open>Cake\<close>.\<close>

theorem searchBar_keyup_visibility_witness:
  "map style_display (grid_items (searchBar_keyup ''CA'' example_catalog)) = [''none'', ''none'', ''block'']"
  using searchBar_keyup_visibility [of "''CA''" example_catalog]
  by (simp add: example_catalog_def example_item_def name_of_def toLowerCase_def lower_char_def sublist_code)

text \<open>
  Claim C5 as worded fails: the value \<^verbatim>\<open>a\<close> followed by a blank matches the item named
  \<^verbatim>\<open>a\<close> once trimmed, and the handler, which does not trim, hides that item.
\<close>

theorem searchBar_keyup_untrimmed_counterexample:
  "spec_trimmed_match ''a '' (example_item ''a'' False) \<and>
   map style_display (grid_items (searchBar_keyup ''a ''
       \<lparr>grid_items = [example_item ''a'' False], selected_list = [], 
        selected_items_count = ''0'', selected_count = ''Selected: 0''\<rparr>)) = [''none'']"
  by code_simp


text \<open>
  Claim C6. The search handler leaves every item's class \<^verbatim>\<open>selected\<close>, checkbox and
  name as they were, and the rendered list and counts as they were; rendering the
  selection afterwards gives the same list and counts as rendering it before, so
  hidden selected items stay counted. When the value matches no item, every item is
  hidden.
\<close>

theorem searchBar_keyup_frame:
  "map class_selected (grid_items (searchBar_keyup v d)) = map class_selected (grid_items d) \<and>
   map checkbox_checked (grid_items (searchBar_keyup v d)) = map checkbox_checked (grid_items d) \<and>
   map data_name (grid_items (searchBar_keyup v d)) = map data_name (grid_items d) \<and>
   selected_list (searchBar_keyup v d) = selected_list d \<and>
   selected_items_count (searchBar_keyup v d) = selected_items_count d \<and>
   selected_count (searchBar_keyup v d) = selected_count d \<and>
   selected_list (updateSelectedList (searchBar_keyup v d)) = selected_list (updateSelectedList d) \<and>
   selected_items_count (updateSelectedList (searchBar_keyup v d))
     = selected_items_count (updateSelectedList d) \<and>
   selected_count (updateSelectedList (searchBar_keyup v d)) = selected_count (updateSelectedList d) \<and>
   ((\<forall>item \<in> set (grid_items d). \<not> sublist (toLowerCase v) (toLowerCase (name_of item))) \<longrightarrow>
      list_all (\<lambda>item. style_display item = ''none'') (grid_items (searchBar_keyup v d)))"
proof -
  have items: "grid_items (searchBar_keyup v d) =
     map (\<lambda>item. item\<lparr>style_display :=
            (if sublist (toLowerCase v) (toLowerCase (name_of item)) then ''block'' else ''none'')\<rparr>)
         (grid_items d)"
    by (rule keyup_items)
  have other: "selected_list (searchBar_keyup v d) = selected_list d"
      "selected_items_count (searchBar_keyup v d) = selected_items_count d"
      "selected_count (searchBar_keyup v d) = selected_count d"
    by (simp_all add: searchBar_keyup_def Let_def)
  have sel: "filter class_selected (grid_items (searchBar_keyup v d))
      = map (\<lambda>item. item\<lparr>style_display :=
            (if sublist (toLowerCase v) (toLowerCase (name_of item)) then ''block'' else ''none'')\<rparr>)
         (filter class_selected (grid_items d))"
    unfolding items by (simp add: filter_map o_def)
  have names: "map name_of (filter class_selected (grid_items (searchBar_keyup v d)))
      = map name_of (filter class_selected (grid_items d))"
    unfolding sel by (simp add: name_of_def)
  have len: "length (filter class_selected (grid_items (searchBar_keyup v d)))
      = length (filter class_selected (grid_items d))"
    unfolding sel by simp
  show ?thesis
    unfolding updateSelectedList_fields names len other
    by (simp add: items list_all_iff)
qed

text \<open>
  Claim C6 on the example catalog: \<^verbatim>\<open>zz\<close> matches nothing, all three items are hidden
  and the selection still lists \<^verbatim>\<open>Bread\<close>.
\<close>

theorem searchBar_keyup_frame_witness:
  "list_all (\<lambda>item. style_display item = ''none'')
     (grid_items (searchBar_keyup ''zz'' (updateSelectedList example_catalog))) \<and>
   selected_list (searchBar_keyup ''zz'' (updateSelectedList example_catalog)) = [''Bread''] \<and>
   selected_items_count (searchBar_keyup ''zz'' (updateSelectedList example_catalog)) = ''1''"
proof -
  have none: "\<forall>item \<in> set (grid_items (updateSelectedList example_catalog)).
      \<not> sublist (toLowerCase ''zz'') (toLowerCase (name_of item))"
    by (simp add: updateSelectedList_fields example_catalog_def example_item_def name_of_def
        toLowerCase_def lower_char_def sublist_code)
  have upd: "selected_list (updateSelectedList example_catalog) = [''Bread'']"
     "selected_items_count (updateSelectedList example_catalog) = ''1''"
    by (simp_all add: updateSelectedList_fields example_catalog_def example_item_def name_of_def
        toString.simps digit_def)
  note frame = searchBar_keyup_frame [of "''zz''" "updateSelectedList example_catalog"]
  from frame none have "list_all (\<lambda>item. style_display item = ''none'')
     (grid_items (searchBar_keyup ''zz'' (updateSelectedList example_catalog)))"
    by blast
  moreover from frame have
    "selected_list (searchBar_keyup ''zz'' (updateSelectedList example_catalog))
       = selected_list (updateSelectedList example_catalog)"
    "selected_items_count (searchBar_keyup ''zz'' (updateSelectedList example_catalog))
       = selected_items_count (updateSelectedList example_catalog)"
    by blast+
  ultimately show ?thesis
    by (simp only: upd simp_thms)
qed


section \<open>The submission handler: what every invocation keeps\<close>

lemmas page_ops = update_props_def set_textContent_def classList_add_def classList_remove_def
  appendChild_def createElement_def set_offset_def

lemma catch_block_sel [simp]:
  "runs (snd (catch_block r p)) = runs p"
  "fst (catch_block r p) = r\<lparr>pc := Awaiting_timeout 1500 Error_reset\<rparr>"
  "saved (snd (catch_block r p)) = saved p"
  "childNodes (snd (catch_block r p)) = [Text ''Error! Try Again'']"
  by (simp_all add: catch_block_def page_ops Let_def)

lemma tick_sel [simp]:
  "runs (snd (tick r p)) = runs p"
  "childNodes (snd (tick r p)) = childNodes p"
  "saved (snd (tick r p)) = saved p"
  "fst (tick r p) = r\<lparr>progress := progress r + 2,
            progressInterval := (if progress r + 2 \<ge> 100 then None else progressInterval r)\<rparr>"
  by (simp_all add: tick_def page_ops Let_def split: option.splits)

lemma fetch_resolved_sel [simp]:
  "runs (snd (fetch_resolved ok h r p)) = runs p"
  "saved (snd (fetch_resolved ok h r p)) = saved p"
  "fst (fetch_resolved ok h r p) =
     (if ok then r\<lparr>progressInterval := None, contentDisposition := h, pc := Awaiting_blob\<rparr>
      else r\<lparr>pc := Awaiting_timeout 1500 Error_reset\<rparr>)"
  by (simp_all add: fetch_resolved_def page_ops Let_def split: option.splits)

lemma blob_resolved_sel [simp]:
  "runs (snd (blob_resolved r p)) = runs p"
  "childNodes (snd (blob_resolved r p)) = childNodes p"
  "saved (snd (blob_resolved r p)) = saved p @ [download_name (contentDisposition r)]"
  "fst (blob_resolved r p) = r\<lparr>pc := Awaiting_timeout 1000 Success_reset\<rparr>"
  by (simp_all add: blob_resolved_def page_ops Let_def split: prod.splits)

lemma timeout_fired_sel [simp]:
  "runs (snd (timeout_fired k r p)) = runs p"
  "saved (snd (timeout_fired k r p)) = saved p"
  "fst (timeout_fired k r p) = r\<lparr>pc := Returned\<rparr>"
  by (simp_all add: timeout_fired_def reset_button_def page_ops Let_def split: reset.splits script.splits)

lemma resume_runs:
  "runs (snd (h (runs p ! i) p)) = runs p \<Longrightarrow>
   runs (resume h i p) = (runs p)[i := fst (h (runs p ! i) p)]"
  by (cases "h (runs p ! i) p") (simp add: resume_def)

lemma resume_other:
  "saved (resume h i p) = saved (snd (h (runs p ! i) p))"
  "childNodes (resume h i p) = childNodes (snd (h (runs p ! i) p))"
  "store (resume h i p) = store (snd (h (runs p ! i) p))"
  by (simp_all add: resume_def split: prod.splits)

lemma find_or_create_ring_runs [simp]: "runs (snd (find_or_create_ring p)) = runs p"
  by (simp add: find_or_create_ring_def createProgressRing_def page_ops Let_def split: option.splits prod.splits)

lemma start_animation_runs [simp]: "runs (start_animation sp p) = runs p"
  by (simp add: start_animation_def page_ops Let_def)

lemma onsubmit_runs:
  "\<exists>r. runs (onsubmit c p) = runs p @ [r] \<and> run_ok r \<and> progress r = 0"
  by (auto simp add: onsubmit_def Let_def run_ok_def set_textContent_def case_prod_beta split: option.splits)

lemma list_all_update: "list_all P xs \<Longrightarrow> (i < length xs \<Longrightarrow> P x) \<Longrightarrow> list_all P (xs[i := x])"
  by (cases "i < length xs") (auto simp: list_all_length nth_list_update)

lemma step_run_ok:
  assumes "list_all run_ok (runs p)" and "step e p = Some p'"
  shows "list_all run_ok (runs p')"
proof (cases e)
  case (Submit c)
  then show ?thesis using assms onsubmit_runs[of c p] by auto
next
  case (Tick i)
  with assms have i: "i < length (runs p)" "progressInterval (runs p ! i) \<noteq> None"
    and p': "p' = resume tick i p" by (auto split: if_splits)
  from assms(1) i have "run_ok (runs p ! i)" by (simp add: list_all_length)
  with i have "run_ok (fst (tick (runs p ! i) p))"
    by (auto simp: run_ok_def)
  then show ?thesis unfolding p' using assms(1)
    by (simp add: resume_runs list_all_update)
next
  case (Fetch_resolved i ok h)
  with assms have i: "i < length (runs p)" "pc (runs p ! i) = Awaiting_fetch"
    and p': "p' = resume (fetch_resolved ok h) i p" by (auto simp: at_pc_def split: if_splits)
  from assms(1) i have "run_ok (runs p ! i)" by (simp add: list_all_length)
  with i have "run_ok (fst (fetch_resolved ok h (runs p ! i) p))"
    by (auto simp: run_ok_def)
  then show ?thesis unfolding p' using assms(1)
    by (simp add: resume_runs list_all_update)
next
  case (Fetch_rejected i)
  with assms have i: "i < length (runs p)" "pc (runs p ! i) = Awaiting_fetch"
    and p': "p' = resume fetch_rejected i p" by (auto simp: at_pc_def split: if_splits)
  from assms(1) i have "run_ok (runs p ! i)" by (simp add: list_all_length)
  with i have "run_ok (fst (fetch_rejected (runs p ! i) p))"
    by (auto simp: run_ok_def fetch_rejected_def)
  then show ?thesis unfolding p' using assms(1)
    by (simp add: resume_runs list_all_update fetch_rejected_def)
next
  case (Blob_resolved i)
  with assms have i: "i < length (runs p)" "pc (runs p ! i) = Awaiting_blob"
    and p': "p' = resume blob_resolved i p" by (auto simp: at_pc_def split: if_splits)
  from assms(1) i have "run_ok (runs p ! i)" by (simp add: list_all_length)
  with i have "run_ok (fst (blob_resolved (runs p ! i) p))"
    by (auto simp: run_ok_def)
  then show ?thesis unfolding p' using assms(1)
    by (simp add: resume_runs list_all_update)
next
  case (Blob_rejected i)
  with assms have i: "i < length (runs p)" "pc (runs p ! i) = Awaiting_blob"
    and p': "p' = resume blob_rejected i p" by (auto simp: at_pc_def split: if_splits)
  from assms(1) i have "run_ok (runs p ! i)" by (simp add: list_all_length)
  with i have "run_ok (fst (blob_rejected (runs p ! i) p))"
    by (auto simp: run_ok_def blob_rejected_def)
  then show ?thesis unfolding p' using assms(1)
    by (simp add: resume_runs list_all_update blob_rejected_def)
next
  case (Timeout i)
  with assms obtain d k where i: "i < length (runs p)" "pc (runs p ! i) = Awaiting_timeout d k"
    and p': "p' = resume (timeout_fired k) i p" by (auto split: if_splits pc.splits)
  from assms(1) i have "run_ok (runs p ! i)" by (simp add: list_all_length)
  with i have "run_ok (fst (timeout_fired k (runs p ! i) p))"
    by (auto simp: run_ok_def)
  then show ?thesis unfolding p' using assms(1)
    by (simp add: resume_runs list_all_update)
qed

lemma exec_run_ok:
  "list_all run_ok (runs p) \<Longrightarrow> exec es p = Some p' \<Longrightarrow> list_all run_ok (runs p')"
  by (induction es arbitrary: p) (auto split: option.splits dest: step_run_ok)


section \<open>The progress ring\<close>

lemma ring_offset_full [simp]: "ring_offset c 100 = 0"
  by (simp add: ring_offset_def)

lemma fetch_ok_shows_full:
  assumes "at_pc i Awaiting_fetch p" and "circle (runs p ! i) = Some ci"
  shows "step (Fetch_resolved i True h) p = Some (resume (fetch_resolved True h) i p)"
    and "ring_shows i 100 (resume (fetch_resolved True h) i p)"
    and "strokeDashoffset (store (resume (fetch_resolved True h) i p) ci) = Some 0"
    and "progressInterval (runs (resume (fetch_resolved True h) i p) ! i) = None"
    and "step (Tick i) (resume (fetch_resolved True h) i p) = None"
proof -
  from assms have i: "i < length (runs p)" by (simp add: at_pc_def)
  show "step (Fetch_resolved i True h) p = Some (resume (fetch_resolved True h) i p)"
    using assms by simp
  have st: "strokeDashoffset (store (snd (fetch_resolved True h (runs p ! i) p)) ci) = Some 0"
    using assms(2) by (simp add: fetch_resolved_def page_ops Let_def)
  then show "strokeDashoffset (store (resume (fetch_resolved True h) i p) ci) = Some 0"
    by (simp add: resume_other)
  with i assms(2) show "ring_shows i 100 (resume (fetch_resolved True h) i p)"
    by (simp add: ring_shows_def resume_runs)
  from i show "progressInterval (runs (resume (fetch_resolved True h) i p) ! i) = None"
    by (simp add: resume_runs)
  with i show "step (Tick i) (resume (fetch_resolved True h) i p) = None"
    by (simp add: resume_runs)
qed

lemma tick_advances:
  assumes "run_ok (runs p ! j)" and "step (Tick j) p = Some p1"
  shows "progress (runs p1 ! j) = progress (runs p ! j) + 2"
    and "progressInterval (runs p ! j) = Some 20"
    and "ring_shows j (progress (runs p ! j) + 2) p1"
proof -
  from assms(2) have j: "j < length (runs p)" "progressInterval (runs p ! j) \<noteq> None"
    and p1: "p1 = resume tick j p" by (auto split: if_splits)
  from j show "progress (runs p1 ! j) = progress (runs p ! j) + 2"
    by (simp add: p1 resume_runs)
  from assms(1) j show "progressInterval (runs p ! j) = Some 20"
    by (simp add: run_ok_def)
  from assms(1) j obtain ci where ci: "circle (runs p ! j) = Some ci"
    by (auto simp: run_ok_def)
  then have "strokeDashoffset (store (snd (tick (runs p ! j) p)) ci)
       = Some (ring_offset (circumference (runs p ! j)) (progress (runs p ! j) + 2))"
    by (simp add: tick_def page_ops Let_def)
  with j ci show "ring_shows j (progress (runs p ! j) + 2) p1"
    by (simp add: p1 ring_shows_def resume_runs resume_other)
qed

text \<open>
  Claim C3. On a page reached by any events from one where nothing was submitted:
  whenever an invocation awaits its request and the request resolves with a success
  status, the continuation runs, and when it is done the ring shows 100 percent (its
  offset is the one the progress value 100 gives, which is 0), the interval is
  cleared and no tick is enabled any more; this holds whatever ticks ran before,
  none included. Every tick that runs belongs to an interval of period 20, adds
  exactly 2 to the progress counter and makes the ring show the new value; and no
  progress counter exceeds 100.
\<close>

theorem success_shows_full_ring:
  assumes "runs p0 = []" and "exec es p0 = Some p"
  shows "(\<forall>i h. at_pc i Awaiting_fetch p \<longrightarrow>
            (\<exists>p'. step (Fetch_resolved i True h) p = Some p' \<and> ring_shows i 100 p' \<and>
                  ring_offset (circumference (runs p' ! i)) 100 = 0 \<and>
                  progressInterval (runs p' ! i) = None \<and> step (Tick i) p' = None)) \<and>
         (\<forall>j p1. step (Tick j) p = Some p1 \<longrightarrow>
            progressInterval (runs p ! j) = Some 20 \<and>
            progress (runs p1 ! j) = progress (runs p ! j) + 2 \<and>
            ring_shows j (progress (runs p1 ! j)) p1) \<and>
         (\<forall>r \<in> set (runs p). progress r \<le> 100)"
proof -
  from assms have ok: "list_all run_ok (runs p)"
    using exec_run_ok [of p0 es p] by simp
  have a: "\<exists>p'. step (Fetch_resolved i True h) p = Some p' \<and> ring_shows i 100 p' \<and>
                  ring_offset (circumference (runs p' ! i)) 100 = 0 \<and>
                  progressInterval (runs p' ! i) = None \<and> step (Tick i) p' = None"
    if "at_pc i Awaiting_fetch p" for i h
  proof -
    from that ok have "run_ok (runs p ! i)" by (simp add: at_pc_def list_all_length)
    with that obtain ci where "circle (runs p ! i) = Some ci"
      by (auto simp: run_ok_def at_pc_def)
    from fetch_ok_shows_full [OF that this] show ?thesis by simp
  qed
  have b: "progressInterval (runs p ! j) = Some 20 \<and>
            progress (runs p1 ! j) = progress (runs p ! j) + 2 \<and>
            ring_shows j (progress (runs p1 ! j)) p1"
    if "step (Tick j) p = Some p1" for j p1
  proof -
    from that have "j < length (runs p)" by (auto split: if_splits)
    with ok have "run_ok (runs p ! j)" by (simp add: list_all_length)
    from tick_advances [OF this that] show ?thesis by simp
  qed
  from ok have c: "\<forall>r \<in> set (runs p). progress r \<le> 100"
    by (simp add: list_all_iff run_ok_def)
  from a b c show ?thesis by blast
qed

text \<open>Claim C3 on the example page, with two ticks before the response.\<close>

theorem success_shows_full_ring_witness:
  "runs (example_page Script_ts) = [] \<and>
   exec [Submit 10, Tick 0, Tick 0] (example_page Script_ts) \<noteq> None \<and>
   at_pc 0 Awaiting_fetch (the (exec [Submit 10, Tick 0, Tick 0] (example_page Script_ts))) \<and>
   (\<exists>p'. step (Fetch_resolved 0 True None)
            (the (exec [Submit 10, Tick 0, Tick 0] (example_page Script_ts))) = Some p' \<and>
         ring_shows 0 100 p' \<and> step (Tick 0) p' = None)"
proof -
  have a: "runs (example_page Script_ts) = []"
    by (simp add: example_page_def)
  have b: "exec [Submit 10, Tick 0, Tick 0] (example_page Script_ts) \<noteq> None"
    by code_simp
  then have b': "exec [Submit 10, Tick 0, Tick 0] (example_page Script_ts)
      = Some (the (exec [Submit 10, Tick 0, Tick 0] (example_page Script_ts)))"
    by simp
  have c: "at_pc 0 Awaiting_fetch (the (exec [Submit 10, Tick 0, Tick 0] (example_page Script_ts)))"
    by code_simp
  from success_shows_full_ring [OF a b'] c
  have "\<exists>p'. step (Fetch_resolved 0 True None)
            (the (exec [Submit 10, Tick 0, Tick 0] (example_page Script_ts))) = Some p' \<and>
         ring_shows 0 100 p' \<and> step (Tick 0) p' = None"
    by blast
  with a b c show ?thesis by blast
qed

text \<open>The same with no tick at all before the response.\<close>

lemma instant_response_shows_full_ring:
  "map_option (\<lambda>p. (ring_shows 0 100 p, map progressInterval (runs p), map progress (runs p)))
     (exec [Submit 10, Fetch_resolved 0 True None] (example_page Script_ts))
   = Some (True, [None], [0])"
  by code_simp

section \<open>A request that fails\<close>

text \<open>
  The \<^verbatim>\<open>catch\<close> block leaves the interval as it is, so after a failed request the
  next tick is still enabled and advances the ring.
\<close>

lemma catch_keeps_interval: "progressInterval (fst (catch_block r p)) = progressInterval r"
  by simp

lemma late_tick_after_failure:
  assumes "at_pc i Awaiting_fetch p" and "progressInterval (runs p ! i) \<noteq> None"
  shows "\<exists>p1 p2. step (Fetch_resolved i False h) p = Some p1 \<and> step (Tick i) p1 = Some p2 \<and>
           progress (runs p2 ! i) = progress (runs p ! i) + 2"
    and "\<exists>p1 p2. step (Fetch_rejected i) p = Some p1 \<and> step (Tick i) p1 = Some p2 \<and>
           progress (runs p2 ! i) = progress (runs p ! i) + 2"
  using assms by (simp_all add: at_pc_def resume_runs fetch_rejected_def)

text \<open>
  Claim C1, evaluated where it fails. The form is submitted, three ticks run, the
  response arrives with a status that is not a success: the error treatment is
  applied, the interval is still registered and the ring shows 6 percent. The fourth
  tick then runs and moves the ring to 8 percent under the error treatment.
\<close>

theorem failed_request_leaves_interval_running:
  "map_option (\<lambda>p. (classList (store p (button p)), childNodes p, map pc (runs p),
                     map progressInterval (runs p), map progress (runs p), ring_shows 0 6 p))
     (exec [Submit 10, Tick 0, Tick 0, Tick 0, Fetch_resolved 0 False None]
           (example_page Script_ts))
   = Some ([''error''], [Text ''Error! Try Again''], [Awaiting_timeout 1500 Error_reset],
           [Some 20], [6], True) \<and>
   map_option (\<lambda>p. (classList (store p (button p)), childNodes p, map pc (runs p),
                     map progressInterval (runs p), map progress (runs p), ring_shows 0 8 p))
     (exec [Submit 10, Tick 0, Tick 0, Tick 0, Fetch_resolved 0 False None, Tick 0]
           (example_page Script_ts))
   = Some ([''error''], [Text ''Error! Try Again''], [Awaiting_timeout 1500 Error_reset],
           [Some 20], [8], True)"
  by code_simp

text \<open>
  Claim C2, evaluated where it fails: the handler of \<^verbatim>\<open>static/script.js\<close>, a response
  with a status that is not a success, and the reset callback 1500 ms later. Nothing
  is saved and the button is enabled again, but the callback stops at the read of
  \<^verbatim>\<open>originalText\<close>: the label stays \<^verbatim>\<open>Error! Try Again\<close> and the spinner keeps its
  \<^verbatim>\<open>display\<close>.
\<close>

theorem js_error_reset_keeps_error_label:
  "map_option (\<lambda>p. (childNodes p, disabled (store p (button p)), classList (store p (button p)),
                     map (\<lambda>r. display (store p (spinner r))) (runs p), map pc (runs p),
                     saved p, uncaught p))
     (exec [Submit 10, Fetch_resolved 0 False None, Timeout 0] (example_page Script_js))
   = Some ([Text ''Error! Try Again''], False, [], [''block''], [Returned], [], [ReferenceError])"
  by code_simp

text \<open>
  The same events with the handler of \<^verbatim>\<open>static/src/script.ts\<close>: the callback runs to
  its end and writes back the text read at the start of the handler, which is the
  label followed by the white space of the ring just appended.
\<close>

lemma ts_error_reset_on_example:
  "map_option (\<lambda>p. (childNodes p, disabled (store p (button p)), classList (store p (button p)),
                     map (\<lambda>r. display (store p (spinner r))) (runs p), map pc (runs p),
                     saved p, uncaught p))
     (exec [Submit 10, Fetch_resolved 0 False None, Timeout 0] (example_page Script_ts))
   = Some ([Text (''Download'' @ CHR 0x0A # ''    '' @ CHR 0x0A # ''  '')], False, [], [''none''],
           [Returned], [], [])"
  by code_simp

text \<open>
  In general the TypeScript callback writes back the text the handler read, saves
  nothing, enables the button and hides the spinner.
\<close>

lemma ts_error_reset_restores:
  assumes "script p = Script_ts" and "i < length (runs p)"
    and "pc (runs p ! i) = Awaiting_timeout delay Error_reset"
  shows "\<exists>p'. step (Timeout i) p = Some p' \<and>
           childNodes p' = (if originalText (runs p ! i) = [] then []
                            else [Text (originalText (runs p ! i))]) \<and>
           saved p' = saved p \<and> uncaught p' = uncaught p \<and>
           (spinner (runs p ! i) \<noteq> button p \<longrightarrow>
              \<not> disabled (store p' (button p)) \<and>
              display (store p' (spinner (runs p ! i))) = ''none'')"
  using assms
  by (simp add: resume_def timeout_fired_def reset_button_def page_ops Let_def
      remove_from_def is_elem_def)

section \<open>The name of the saved file\<close>

lemma split_from_none:
  "sep \<noteq> [] \<Longrightarrow> \<not> sublist sep s \<Longrightarrow> split_from sep acc s = [rev acc @ s]"
proof (induction sep acc s rule: split_from.induct)
  case (1 sep acc s)
  show ?case
  proof (cases s)
    case Nil
    then show ?thesis by (simp add: split_from.simps)
  next
    case (Cons x xs)
    from "1.prems" have np: "\<not> prefix sep s" by (auto simp: sublist_altdef')
    from "1.prems" Cons have "\<not> sublist sep xs" by (simp add: sublist_Cons_right)
    with "1.IH"(2) [OF _ _ "1.prems"(1)] np Cons
    have "split_from sep (hd s # acc) (tl s) = [rev (hd s # acc) @ tl s]" by simp
    with np Cons show ?thesis by (subst split_from.simps) simp
  qed
qed

lemma early_prefix:
  assumes "prefix sep (x # pre @ sep @ rest)"
  shows "sublist sep (x # pre @ butlast sep)"
proof (cases "sep = []")
  case True
  then show ?thesis by simp
next
  case False
  then have "sep = butlast sep @ [last sep]" by simp
  then have "x # pre @ sep @ rest = (x # pre @ butlast sep) @ (last sep # rest)"
    by (metis append.assoc append_Cons append_Nil)
  then have "prefix (x # pre @ butlast sep) (x # pre @ sep @ rest)"
    by (metis prefixI)
  moreover have "length sep \<le> length (x # pre @ butlast sep)"
    using False by (cases sep) auto
  ultimately have "prefix sep (x # pre @ butlast sep)"
    using assms prefix_length_prefix by blast
  then show ?thesis by (auto simp: sublist_altdef')
qed

lemma split_from_first:
  "sep \<noteq> [] \<Longrightarrow> \<not> sublist sep (pre @ butlast sep) \<Longrightarrow>
   split_from sep acc (pre @ sep @ rest) = (rev acc @ pre) # split_from sep [] rest"
proof (induction pre arbitrary: acc)
  case Nil
  then show ?case by (subst split_from.simps) simp
next
  case (Cons x pre)
  from Cons.prems(2) have np: "\<not> prefix sep (x # pre @ sep @ rest)"
    using early_prefix [of sep x pre rest] by auto
  from Cons.prems(2) have "\<not> sublist sep (pre @ butlast sep)"
    by (simp add: sublist_Cons_right)
  from Cons.IH [OF Cons.prems(1) this, of "x # acc"] np
  show ?case by (subst split_from.simps) simp
qed


lemma split_none: "sep \<noteq> [] \<Longrightarrow> \<not> sublist sep s \<Longrightarrow> split sep s = [s]"
  by (simp add: split_def split_from_none)

lemma split_first:
  "sep \<noteq> [] \<Longrightarrow> \<not> sublist sep (pre @ butlast sep) \<Longrightarrow>
   split sep (pre @ sep @ rest) = pre # split sep rest"
  by (simp add: split_def split_from_first)

lemma download_name_never_empty: "download_name header \<noteq> []"
  by (simp add: download_name_def split: option.splits list.splits)

lemma blob_saves:
  assumes "at_pc i Awaiting_fetch p"
  shows "\<exists>p1 p2. step (Fetch_resolved i True header) p = Some p1 \<and>
                 step (Blob_resolved i) p1 = Some p2 \<and>
                 saved p2 = saved p @ [download_name header]"
  using assms by (simp add: at_pc_def resume_runs resume_other)

lemma split_first_filename:
  "\<not> sublist ''filename='' (pre @ ''filename'') \<Longrightarrow>
   split ''filename='' (pre @ ''filename='' @ rest) = pre # split ''filename='' rest"
  using split_first [of "''filename=''" pre rest] by simp

text \<open>
  Claim C7, as the handler has it. The saved name is the piece of the header between
  the first \<^verbatim>\<open>filename=\<close> and the next one, or the end of the header when there is no
  next one; when that piece is empty, when the header has no \<^verbatim>\<open>filename=\<close>, and when
  there is no header, the name is \<^verbatim>\<open>datapack.zip\<close>. The name is never empty, and
  whatever the header, a successful response followed by its body saves exactly one
  file, under that name.
\<close>

theorem download_name_from_header:
  "download_name None = ''datapack.zip'' \<and>
   (\<not> sublist ''filename='' h \<longrightarrow> download_name (Some h) = ''datapack.zip'') \<and>
   (\<not> sublist ''filename='' (pre @ ''filename'') \<and> \<not> sublist ''filename='' name \<longrightarrow>
      download_name (Some (pre @ ''filename='' @ name))
        = (if name = [] then ''datapack.zip'' else name)) \<and>
   (\<not> sublist ''filename='' (pre @ ''filename'') \<and> \<not> sublist ''filename='' (name @ ''filename'') \<longrightarrow>
      download_name (Some (pre @ ''filename='' @ name @ ''filename='' @ tl_part))
        = (if name = [] then ''datapack.zip'' else name)) \<and>
   download_name header \<noteq> [] \<and>
   (at_pc i Awaiting_fetch p \<longrightarrow>
      (\<exists>p1 p2. step (Fetch_resolved i True header) p = Some p1 \<and>
               step (Blob_resolved i) p1 = Some p2 \<and>
               saved p2 = saved p @ [download_name header]))"
proof -
  have a: "download_name None = ''datapack.zip''"
    by (simp add: download_name_def)
  have b: "download_name (Some h) = ''datapack.zip''" if "\<not> sublist ''filename='' h"
    using split_none [of "''filename=''" h] that by (simp add: download_name_def)
  have c: "download_name (Some (pre @ ''filename='' @ name))
        = (if name = [] then ''datapack.zip'' else name)"
    if "\<not> sublist ''filename='' (pre @ ''filename'')" "\<not> sublist ''filename='' name"
  proof -
    from that(1) have "split ''filename='' (pre @ ''filename='' @ name)
        = pre # split ''filename='' name"
      by (rule split_first_filename)
    moreover from that(2) have "split ''filename='' name = [name]"
      by (simp add: split_none)
    ultimately show ?thesis
      by (simp only: download_name_def option.case list.case)
  qed
  have d: "download_name (Some (pre @ ''filename='' @ name @ ''filename='' @ tl_part))
        = (if name = [] then ''datapack.zip'' else name)"
    if "\<not> sublist ''filename='' (pre @ ''filename'')"
       "\<not> sublist ''filename='' (name @ ''filename'')"
  proof -
    from that(1) have "split ''filename='' (pre @ ''filename='' @ name @ ''filename='' @ tl_part)
        = pre # split ''filename='' (name @ ''filename='' @ tl_part)"
      by (rule split_first_filename)
    moreover from that(2) have "split ''filename='' (name @ ''filename='' @ tl_part)
        = name # split ''filename='' tl_part"
      by (rule split_first_filename)
    ultimately show ?thesis
      by (simp only: download_name_def option.case list.case)
  qed
  from a b c d download_name_never_empty blob_saves show ?thesis by blast
qed

text \<open>Claim C7 on three headers.\<close>

theorem download_name_from_header_witness:
  "download_name (Some ''attachment; filename=datapack.zip'') = ''datapack.zip'' \<and>
   download_name (Some ''attachment; filename=recipes.zip'') = ''recipes.zip'' \<and>
   download_name (Some ''attachment'') = ''datapack.zip''"
proof -
  have n1: "\<not> sublist ''filename='' (''attachment; '' @ ''filename'')"
       "\<not> sublist ''filename='' ''datapack.zip''" "\<not> sublist ''filename='' ''recipes.zip''"
       "\<not> sublist ''filename='' ''attachment''"
    by (simp_all add: sublist_code)
  from download_name_from_header [of "''attachment''"] n1(4)
  have "download_name (Some ''attachment'') = ''datapack.zip''" by blast
  moreover
  from download_name_from_header [of _ "''attachment; ''" "''datapack.zip''"] n1(1,2)
  have "download_name (Some (''attachment; '' @ ''filename='' @ ''datapack.zip'')) = ''datapack.zip''"
    by simp
  moreover
  from download_name_from_header [of _ "''attachment; ''" "''recipes.zip''"] n1(1,3)
  have "download_name (Some (''attachment; '' @ ''filename='' @ ''recipes.zip'')) = ''recipes.zip''"
    by simp
  ultimately show ?thesis by simp
qed

text \<open>
  Claim C7 as worded fails on a header with a second \<^verbatim>\<open>filename=\<close>: the saved name
  stops before it, and is neither the substring after the token nor the default.
\<close>

theorem download_name_second_token_counterexample:
  "download_name (Some ''attachment; filename=a.zip; filename=b.zip'') = ''a.zip; '' \<and>
   spec_download_name (Some ''attachment; filename=a.zip; filename=b.zip'')
     = ''a.zip; filename=b.zip''"
  by code_simp


section \<open>The children of the button\<close>

lemma text_only_simps [simp]: "text_only []" "text_only [Text s]"
  by (simp_all add: text_only_def)

lemma text_only_descendants: "text_only kids \<Longrightarrow> descendants kids = []"
  by (induction kids) (auto simp: text_only_def descendants_def split: node.splits)

lemma text_only_no_class: "text_only (childNodes p) \<Longrightarrow> children_of_class c p = []"
  by (auto simp: children_of_class_def text_only_def list_all_iff elem_of_class_def filter_empty_conv
      split: node.splits)

lemma text_only_fresh: "text_only (childNodes p) \<Longrightarrow> fresh_refs p"
  by (simp add: fresh_refs_def text_only_descendants)

lemma text_only_remove: "text_only kids \<Longrightarrow> remove_from r kids = kids"
  by (induction kids) (auto simp: text_only_def remove_from_def is_elem_def split: node.splits)

lemma reset_button_children:
  "childNodes (reset_button cls r p) = (if originalText r = [] then [] else [Text (originalText r)])"
  by (simp add: reset_button_def page_ops Let_def remove_from_def is_elem_def)

lemma onsubmit_children: "text_only (childNodes (onsubmit c p))"
  by (simp add: onsubmit_def Let_def set_textContent_def case_prod_beta split: option.splits)

lemma has_class_removeAll:
  "has_class c (e\<lparr>classList := removeAll c' (classList e)\<rparr>) \<Longrightarrow> has_class c e"
  by (auto simp: has_class_def)

lemma tick_unchanged: "unchanged_or_text p (resume tick i p)"
  by (auto simp: unchanged_or_text_def resume_def tick_def page_ops has_class_def Let_def
      split: option.splits)

lemma blob_resolved_unchanged: "unchanged_or_text p (resume blob_resolved i p)"
  by (auto simp: unchanged_or_text_def resume_def blob_resolved_def page_ops has_class_def Let_def blank_def)

lemma catch_text: "text_only (childNodes (resume (catch_block) i p))"
  by (simp add: resume_def case_prod_beta)

lemma fetch_resolved_text: "text_only (childNodes (resume (fetch_resolved ok h) i p))"
  by (simp add: resume_def case_prod_beta fetch_resolved_def page_ops Let_def catch_block_def)

lemma timeout_unchanged: "unchanged_or_text p (resume (timeout_fired k) i p)"
  by (auto simp: unchanged_or_text_def resume_def timeout_fired_def reset_button_children Let_def
       page_ops has_class_def
      split: reset.splits script.splits)

lemma step_unchanged_or_text: "step e p = Some p' \<Longrightarrow> unchanged_or_text p p'"
proof (cases e)
  case (Submit c)
  assume "step e p = Some p'"
  with Submit show ?thesis by (auto simp: unchanged_or_text_def onsubmit_children)
next
  case (Tick i)
  assume "step e p = Some p'"
  with Tick show ?thesis by (auto simp: tick_unchanged split: if_splits)
next
  case (Fetch_resolved i ok h)
  assume "step e p = Some p'"
  with Fetch_resolved show ?thesis
    by (auto simp: unchanged_or_text_def fetch_resolved_text split: if_splits)
next
  case (Fetch_rejected i)
  assume "step e p = Some p'"
  with Fetch_rejected show ?thesis
    using catch_text [of i p]
    by (auto simp: unchanged_or_text_def fetch_rejected_def [abs_def] split: if_splits)
next
  case (Blob_resolved i)
  assume "step e p = Some p'"
  with Blob_resolved show ?thesis by (auto simp: blob_resolved_unchanged split: if_splits)
next
  case (Blob_rejected i)
  assume "step e p = Some p'"
  with Blob_rejected show ?thesis
    using catch_text [of i p]
    by (auto simp: unchanged_or_text_def blob_rejected_def [abs_def] split: if_splits)
next
  case (Timeout i)
  assume "step e p = Some p'"
  with Timeout show ?thesis by (auto simp: timeout_unchanged split: if_splits pc.splits)
qed


lemma unchanged_count:
  assumes "unchanged_or_text p p'"
  shows "length (children_of_class c p') \<le> length (children_of_class c p)"
proof (cases "text_only (childNodes p')")
  case True
  then show ?thesis by (simp add: text_only_no_class)
next
  case False
  with assms have same: "childNodes p' = childNodes p"
    and sub: "\<And>r. has_class c (store p' r) \<Longrightarrow> has_class c (store p r)"
    by (auto simp: unchanged_or_text_def)
  have "filter (elem_of_class c (store p')) (childNodes p)
      = filter (elem_of_class c (store p')) (filter (elem_of_class c (store p)) (childNodes p))"
    using sub by (auto simp: elem_of_class_def intro!: filter_cong split: node.splits)
  then have "length (filter (elem_of_class c (store p')) (childNodes p))
      \<le> length (filter (elem_of_class c (store p)) (childNodes p))"
    by (metis length_filter_le)
  then show ?thesis by (simp add: children_of_class_def same)
qed

lemma unchanged_fresh:
  assumes "unchanged_or_text p p'" and "fresh_refs p"
  shows "fresh_refs p'"
proof (cases "text_only (childNodes p')")
  case True
  then show ?thesis by (rule text_only_fresh)
next
  case False
  with assms(1) have "childNodes p' = childNodes p" "next_ref p \<le> next_ref p'"
    by (auto simp: unchanged_or_text_def)
  with assms(2) show ?thesis
    by (auto simp: fresh_refs_def list_all_iff)
qed

lemma unchanged_text:
  "unchanged_or_text p p' \<Longrightarrow> text_only (childNodes p) \<Longrightarrow> text_only (childNodes p')"
  by (auto simp: unchanged_or_text_def)

lemma exec_count:
  "exec es p = Some p' \<Longrightarrow> length (children_of_class c p') \<le> length (children_of_class c p)"
proof (induction es arbitrary: p)
  case Nil
  then show ?case by simp
next
  case (Cons e es)
  then obtain p1 where p1: "step e p = Some p1" "exec es p1 = Some p'"
    by (auto split: option.splits)
  from step_unchanged_or_text [OF p1(1)]
  have "length (children_of_class c p1) \<le> length (children_of_class c p)"
    by (rule unchanged_count)
  with Cons.IH [OF p1(2)] show ?case by simp
qed

lemma exec_fresh: "exec es p = Some p' \<Longrightarrow> fresh_refs p \<Longrightarrow> fresh_refs p'"
proof (induction es arbitrary: p)
  case Nil
  then show ?case by simp
next
  case (Cons e es)
  then obtain p1 where p1: "step e p = Some p1" "exec es p1 = Some p'"
    by (auto split: option.splits)
  from step_unchanged_or_text [OF p1(1)] Cons.prems(2) have "fresh_refs p1"
    by (rule unchanged_fresh)
  with Cons.IH [OF p1(2)] show ?case by simp
qed

lemma exec_text: "exec es p = Some p' \<Longrightarrow> text_only (childNodes p) \<Longrightarrow> text_only (childNodes p')"
proof (induction es arbitrary: p)
  case Nil
  then show ?case by simp
next
  case (Cons e es)
  then obtain p1 where p1: "step e p = Some p1" "exec es p1 = Some p'"
    by (auto split: option.splits)
  from step_unchanged_or_text [OF p1(1)] Cons.prems(2) have "text_only (childNodes p1)"
    by (rule unchanged_text)
  with Cons.IH [OF p1(2)] show ?case by simp
qed

lemma exec_after_submit:
  "exec es p = Some p' \<Longrightarrow> Submit c \<in> set es \<Longrightarrow> text_only (childNodes p')"
proof (induction es arbitrary: p)
  case Nil
  then show ?case by simp
next
  case (Cons e es)
  then obtain p1 where p1: "step e p = Some p1" "exec es p1 = Some p'"
    by (auto split: option.splits)
  show ?case
  proof (cases "e = Submit c")
    case True
    with p1(1) have "text_only (childNodes p1)" by (auto simp: onsubmit_children)
    with p1(2) show ?thesis by (rule exec_text)
  next
    case False
    with Cons.prems(2) have "Submit c \<in> set es" by simp
    with Cons.IH [OF p1(2)] show ?thesis by simp
  qed
qed

section \<open>The progress ring under the button\<close>

lemma query_fresh:
  assumes "fresh_refs p"
  shows "querySelector sel ((store p)(next_ref p := x)) (childNodes p)
       = querySelector sel (store p) (childNodes p)"
proof -
  have "\<And>y. y \<in> set (descendants (childNodes p)) \<Longrightarrow>
      (case y of (r, ks) \<Rightarrow> sel (((store p)(next_ref p := x)) r))
        = (case y of (r, ks) \<Rightarrow> sel (store p r))"
    using assms by (auto simp: fresh_refs_def list_all_iff)
  then show ?thesis
    unfolding querySelector_def by (rule find_cong [OF refl])
qed

lemma find_or_create_found:
  assumes "fresh_refs p"
    and "querySelector (has_class ''progress-ring'') (store p) (childNodes p) = Some rg"
  shows "find_or_create_ring p = ((next_ref p, rg), with_spinner p)"
  using assms query_fresh [OF assms(1)]
  by (simp add: find_or_create_ring_def with_spinner_def page_ops Let_def)

lemma find_or_create_none:
  assumes "fresh_refs p"
    and "querySelector (has_class ''progress-ring'') (store p) (childNodes p) = None"
  shows "fst (find_or_create_ring p) = (next_ref p, new_ring p)"
    and "childNodes (snd (find_or_create_ring p))
           = childNodes p @ [Elem (fst (new_ring p)) (snd (new_ring p))]"
    and "next_ref (snd (find_or_create_ring p)) = next_ref p + 3"
    and "store (snd (find_or_create_ring p))
           = (store p)(next_ref p := (blank ''div'')\<lparr>classList := [''spinner'']\<rparr>,
                       Suc (next_ref p) := (blank ''svg'')\<lparr>classList := [''progress-ring'']\<rparr>,
                       Suc (Suc (next_ref p)) := blank ''circle'')"
  using assms query_fresh [OF assms(1)]
  by (simp_all add: find_or_create_ring_def createProgressRing_def new_ring_def page_ops Let_def)

lemma child_is_descendant:
  "Elem r ks \<in> set kids \<Longrightarrow> (r, ks) \<in> set (descendants kids)"
  by (force simp: descendants_def)

lemma query_none_no_children:
  assumes "querySelector (has_class c) (store p) (childNodes p) = None"
  shows "children_of_class c p = []"
proof -
  from assms have none: "\<And>r ks. (r, ks) \<in> set (descendants (childNodes p)) \<Longrightarrow> \<not> has_class c (store p r)"
    by (auto simp: querySelector_def find_None_iff)
  show ?thesis
    unfolding children_of_class_def filter_empty_conv
  proof
    fix n assume n: "n \<in> set (childNodes p)"
    show "\<not> elem_of_class c (store p) n"
    proof (cases n)
      case (Text s)
      then show ?thesis by (simp add: elem_of_class_def)
    next
      case (Elem r ks)
      with n have "(r, ks) \<in> set (descendants (childNodes p))" by (simp add: child_is_descendant)
      with none Elem show ?thesis by (simp add: elem_of_class_def)
    qed
  qed
qed

lemma fresh_children:
  "fresh_refs p \<Longrightarrow> Elem r ks \<in> set (childNodes p) \<Longrightarrow> r < next_ref p"
  using child_is_descendant [of r ks "childNodes p"]
  by (auto simp: fresh_refs_def list_all_iff)

lemma filter_children_cong:
  assumes "\<And>r ks. Elem r ks \<in> set kids \<Longrightarrow> has_class c (st' r) = has_class c (st r)"
  shows "filter (elem_of_class c st') kids = filter (elem_of_class c st) kids"
  using assms by (intro filter_cong refl) (auto simp: elem_of_class_def split: node.splits)

lemma rings_after_find_or_create:
  assumes "fresh_refs p"
  shows "length (children_of_class ''progress-ring'' (snd (find_or_create_ring p)))
       = (case querySelector (has_class ''progress-ring'') (store p) (childNodes p) of
            None \<Rightarrow> 1
          | Some rg \<Rightarrow> length (children_of_class ''progress-ring'' p))"
proof (cases "querySelector (has_class ''progress-ring'') (store p) (childNodes p)")
  case None
  note f = find_or_create_none [OF assms None]
  have old: "filter (elem_of_class ''progress-ring'' (store (snd (find_or_create_ring p)))) (childNodes p)
      = filter (elem_of_class ''progress-ring'' (store p)) (childNodes p)"
  proof (rule filter_children_cong)
    fix r ks assume "Elem r ks \<in> set (childNodes p)"
    with assms have "r < next_ref p" by (rule fresh_children)
    then show "has_class ''progress-ring'' (store (snd (find_or_create_ring p)) r)
        = has_class ''progress-ring'' (store p r)"
      by (simp add: f(4))
  qed
  from query_none_no_children [OF None] have "filter (elem_of_class ''progress-ring'' (store p)) (childNodes p) = []"
    by (simp add: children_of_class_def)
  with old show ?thesis
    by (simp add: None children_of_class_def f(2) f(4) new_ring_def elem_of_class_def has_class_def blank_def)
next
  case (Some rg)
  note f = find_or_create_found [OF assms Some]
  have "filter (elem_of_class ''progress-ring'' (store (with_spinner p))) (childNodes p)
      = filter (elem_of_class ''progress-ring'' (store p)) (childNodes p)"
  proof (rule filter_children_cong)
    fix r ks assume "Elem r ks \<in> set (childNodes p)"
    with assms have "r < next_ref p" by (rule fresh_children)
    then show "has_class ''progress-ring'' (store (with_spinner p) r)
        = has_class ''progress-ring'' (store p r)"
      by (simp add: with_spinner_def)
  qed
  then show ?thesis
    by (simp add: Some f children_of_class_def with_spinner_def)
qed


lemma start_animation_rings:
  assumes "\<not> has_class ''progress-ring'' (store p sp)"
  shows "children_of_class ''progress-ring'' (start_animation sp p)
       = children_of_class ''progress-ring'' p"
proof -
  have cls: "has_class ''progress-ring'' (store (start_animation sp p) r)
      = has_class ''progress-ring'' (store p r)" for r
    by (simp add: start_animation_def page_ops Let_def has_class_def)
  have kids: "childNodes (start_animation sp p) = childNodes p @ [Elem sp []]"
    by (simp add: start_animation_def page_ops Let_def)
  have "filter (elem_of_class ''progress-ring'' (store (start_animation sp p))) (childNodes p)
      = filter (elem_of_class ''progress-ring'' (store p)) (childNodes p)"
    by (rule filter_children_cong) (rule cls)
  with assms show ?thesis
    by (simp add: children_of_class_def kids elem_of_class_def cls)
qed

lemma spinner_is_no_ring:
  assumes "fresh_refs p"
  shows "\<not> has_class ''progress-ring''
           (store (snd (find_or_create_ring p)) (fst (fst (find_or_create_ring p))))"
proof (cases "querySelector (has_class ''progress-ring'') (store p) (childNodes p)")
  case None
  from find_or_create_none [OF assms None] show ?thesis
    by (simp add: has_class_def blank_def)
next
  case (Some rg)
  from find_or_create_found [OF assms Some] show ?thesis
    by (simp add: with_spinner_def has_class_def blank_def)
qed

lemma onsubmit_ring:
  "runs (onsubmit c p) \<noteq> [] \<and>
   ring (last (runs (onsubmit c p))) = snd (fst (find_or_create_ring p))"
  by (simp add: onsubmit_def Let_def set_textContent_def case_prod_beta split: option.splits)

text \<open>
  Claim C9. On a page whose elements under the button were all allocated before and
  whose button has at most one progress-ring child: when the lookup finds a ring
  under the button, the handler takes that ring, leaves the children as they are
  and creates nothing but the spinner; when it finds none, it creates one new ring
  and appends it, and the button then has exactly one ring child. The button has at
  most one ring child after the lookup, after the animation is started, and after
  any further events, submissions included.
\<close>

theorem ring_reused_not_duplicated:
  assumes "fresh_refs p" and "length (children_of_class ''progress-ring'' p) \<le> 1"
  shows "(\<forall>rg. querySelector (has_class ''progress-ring'') (store p) (childNodes p) = Some rg \<longrightarrow>
            ring (last (runs (onsubmit c p))) = rg \<and>
            childNodes (snd (find_or_create_ring p)) = childNodes p \<and>
            next_ref (snd (find_or_create_ring p)) = Suc (next_ref p)) \<and>
         (querySelector (has_class ''progress-ring'') (store p) (childNodes p) = None \<longrightarrow>
            (\<exists>rg. ring (last (runs (onsubmit c p))) = rg \<and> next_ref p \<le> fst rg \<and>
                  childNodes (snd (find_or_create_ring p))
                    = childNodes p @ [Elem (fst rg) (snd rg)] \<and>
                  children_of_class ''progress-ring'' p = [] \<and>
                  length (children_of_class ''progress-ring'' (snd (find_or_create_ring p))) = 1)) \<and>
         length (children_of_class ''progress-ring'' (snd (find_or_create_ring p))) \<le> 1 \<and>
         length (children_of_class ''progress-ring''
                   (start_animation (fst (fst (find_or_create_ring p)))
                                    (snd (find_or_create_ring p)))) \<le> 1 \<and>
         (\<forall>es p'. exec es p = Some p' \<longrightarrow>
            length (children_of_class ''progress-ring'' p') \<le> 1 \<and> fresh_refs p')"
proof -
  note count = rings_after_find_or_create [OF assms(1)]
  have found: "ring (last (runs (onsubmit c p))) = rg \<and>
            childNodes (snd (find_or_create_ring p)) = childNodes p \<and>
            next_ref (snd (find_or_create_ring p)) = Suc (next_ref p)"
    if "querySelector (has_class ''progress-ring'') (store p) (childNodes p) = Some rg" for rg
    using find_or_create_found [OF assms(1) that] onsubmit_ring [of c p]
    by (simp add: with_spinner_def)
  have created: "\<exists>rg. ring (last (runs (onsubmit c p))) = rg \<and> next_ref p \<le> fst rg \<and>
                  childNodes (snd (find_or_create_ring p))
                    = childNodes p @ [Elem (fst rg) (snd rg)] \<and>
                  children_of_class ''progress-ring'' p = [] \<and>
                  length (children_of_class ''progress-ring'' (snd (find_or_create_ring p))) = 1"
    if "querySelector (has_class ''progress-ring'') (store p) (childNodes p) = None"
    using find_or_create_none [OF assms(1) that] onsubmit_ring [of c p]
      query_none_no_children [OF that] count
    by (simp add: that new_ring_def)
  have one: "length (children_of_class ''progress-ring'' (snd (find_or_create_ring p))) \<le> 1"
    using count assms(2) by (simp split: option.splits)
  have two: "length (children_of_class ''progress-ring''
                   (start_animation (fst (fst (find_or_create_ring p)))
                                    (snd (find_or_create_ring p)))) \<le> 1"
    using one start_animation_rings [OF spinner_is_no_ring [OF assms(1)]] by simp
  have later: "length (children_of_class ''progress-ring'' p') \<le> 1 \<and> fresh_refs p'"
    if "exec es p = Some p'" for es p'
    using exec_count [OF that, of "''progress-ring''"] exec_fresh [OF that assms(1)] assms(2)
    by simp
  from found created one two later show ?thesis by blast
qed

text \<open>
  Claim C9 on the page with a ring in its markup: the ring is found and taken, and the
  children are the same after the lookup.
\<close>

theorem ring_reused_not_duplicated_witness:
  "fresh_refs example_page_with_ring \<and>
   length (children_of_class ''progress-ring'' example_page_with_ring) \<le> 1 \<and>
   ring (last (runs (onsubmit 10 example_page_with_ring))) = (1, [Elem 2 []]) \<and>
   childNodes (snd (find_or_create_ring example_page_with_ring))
     = childNodes example_page_with_ring"
proof -
  have a: "fresh_refs example_page_with_ring"
    by code_simp
  have b: "length (children_of_class ''progress-ring'' example_page_with_ring) \<le> 1"
    by code_simp
  have c: "querySelector (has_class ''progress-ring'') (store example_page_with_ring)
             (childNodes example_page_with_ring) = Some (1, [Elem 2 []])"
    by code_simp
  from ring_reused_not_duplicated [OF a b, of 10] c a b show ?thesis by blast
qed

text \<open>On the example page there is no ring: one is created and appended.\<close>

lemma ring_created_on_example:
  "childNodes (snd (find_or_create_ring (example_page Script_ts)))
     = [Text ''Download'', Elem 2 [Text (CHR 0x0A # ''    ''), Elem 3 [], Text (CHR 0x0A # ''  '')]]"
proof -
  have q: "querySelector (has_class ''progress-ring'') (store (example_page Script_ts))
             (childNodes (example_page Script_ts)) = None"
    by code_simp
  have f: "fresh_refs (example_page Script_ts)"
    by code_simp
  from find_or_create_none(2) [OF f q] show ?thesis
    by (simp add: new_ring_def example_page_def)
qed

text \<open>
  The text the handler reads as \<^verbatim>\<open>originalText\<close>: the text under the button, followed
  by the white space of the ring when the ring was just created and appended.
\<close>

lemma originalText_read:
  assumes "fresh_refs p"
  shows "originalText (last (runs (onsubmit c p)))
       = concat (map textContent (childNodes p)) @
         (case querySelector (has_class ''progress-ring'') (store p) (childNodes p) of
            None \<Rightarrow> CHR 0x0A # ''    '' @ CHR 0x0A # ''  ''
          | Some rg \<Rightarrow> [])"
proof -
  have o: "originalText (last (runs (onsubmit c p)))
      = concat (map textContent (childNodes (snd (find_or_create_ring p))))"
    by (simp add: onsubmit_def Let_def set_textContent_def case_prod_beta split: option.splits)
  show ?thesis
  proof (cases "querySelector (has_class ''progress-ring'') (store p) (childNodes p)")
    case None
    from find_or_create_none(2) [OF assms None] show ?thesis
      by (simp add: o None new_ring_def)
  next
    case (Some rg)
    from find_or_create_found [OF assms Some] show ?thesis
      by (simp add: o Some with_spinner_def)
  qed
qed


section \<open>The spinner under the button\<close>

lemma spinner_while_starting:
  assumes "fresh_refs p"
  shows "children_of_class ''spinner''
           (start_animation (fst (fst (find_or_create_ring p))) (snd (find_or_create_ring p)))
       = children_of_class ''spinner'' p @ [Elem (fst (fst (find_or_create_ring p))) []]"
proof -
  let ?sp = "fst (fst (find_or_create_ring p))"
  let ?p1 = "snd (find_or_create_ring p)"
  have cls: "has_class ''spinner'' (store (start_animation ?sp ?p1) r)
      = has_class ''spinner'' (store ?p1 r)" for r
    by (simp add: start_animation_def page_ops Let_def has_class_def)
  have kids: "childNodes (start_animation ?sp ?p1) = childNodes ?p1 @ [Elem ?sp []]"
    by (simp add: start_animation_def page_ops Let_def)
  have facts: "has_class ''spinner'' (store ?p1 ?sp) \<and>
        (\<forall>r. r < next_ref p \<longrightarrow> has_class ''spinner'' (store ?p1 r) = has_class ''spinner'' (store p r)) \<and>
        filter (elem_of_class ''spinner'' (store ?p1)) (childNodes ?p1)
           = filter (elem_of_class ''spinner'' (store ?p1)) (childNodes p)"
  proof (cases "querySelector (has_class ''progress-ring'') (store p) (childNodes p)")
    case None
    note f = find_or_create_none [OF assms None]
    show ?thesis
      by (simp add: f new_ring_def has_class_def blank_def elem_of_class_def)
  next
    case (Some rg)
    note f = find_or_create_found [OF assms Some]
    show ?thesis
      by (simp add: f with_spinner_def has_class_def blank_def)
  qed
  then have spc: "has_class ''spinner'' (store ?p1 ?sp)"
    and old: "\<And>r. r < next_ref p \<Longrightarrow> has_class ''spinner'' (store ?p1 r) = has_class ''spinner'' (store p r)"
    and k1: "filter (elem_of_class ''spinner'' (store ?p1)) (childNodes ?p1)
           = filter (elem_of_class ''spinner'' (store ?p1)) (childNodes p)"
    by blast+
  have "filter (elem_of_class ''spinner'' (store (start_animation ?sp ?p1))) (childNodes ?p1)
      = filter (elem_of_class ''spinner'' (store ?p1)) (childNodes ?p1)"
    by (rule filter_children_cong) (rule cls)
  also have "\<dots> = filter (elem_of_class ''spinner'' (store ?p1)) (childNodes p)"
    by (rule k1)
  also have "\<dots> = filter (elem_of_class ''spinner'' (store p)) (childNodes p)"
  proof (rule filter_children_cong)
    fix r ks assume "Elem r ks \<in> set (childNodes p)"
    with assms have "r < next_ref p" by (rule fresh_children)
    then show "has_class ''spinner'' (store ?p1 r) = has_class ''spinner'' (store p r)"
      by (rule old)
  qed
  finally show ?thesis
    using spc by (simp add: children_of_class_def kids elem_of_class_def cls)
qed


text \<open>
  Claim C10. Over any sequence of events, submissions included, the button never
  ends with more spinner children than it started with; and once a submission has
  begun, the button has no spinner child at all, only text: the spinner appended at
  the start of the handler is removed by the assignment to \<^verbatim>\<open>textContent\<close> that
  follows it, and nothing appends one later. Spinners do not accumulate. Between
  the two statements the button has the spinner children it had and the new one,
  so a single one when the markup has none.
\<close>

theorem spinners_never_accumulate:
  assumes "exec es p = Some p'"
  shows "length (children_of_class ''spinner'' p') \<le> length (children_of_class ''spinner'' p) \<and>
         ((\<exists>c. Submit c \<in> set es) \<longrightarrow>
            children_of_class ''spinner'' p' = [] \<and> text_only (childNodes p')) \<and>
         (fresh_refs p \<longrightarrow>
            children_of_class ''spinner''
              (start_animation (fst (fst (find_or_create_ring p))) (snd (find_or_create_ring p)))
            = children_of_class ''spinner'' p @ [Elem (fst (fst (find_or_create_ring p))) []])"
  using assms exec_count [of es p p' "''spinner''"] exec_after_submit [of es p p']
    spinner_while_starting [of p]
  by (auto simp: text_only_no_class)

text \<open>
  Claim C10 on the example page: a submission that succeeds, saves its file and is
  reset.
\<close>

theorem spinners_never_accumulate_witness:
  "exec [Submit 10, Fetch_resolved 0 True None, Blob_resolved 0, Timeout 0]
        (example_page Script_ts) \<noteq> None \<and>
   fresh_refs (example_page Script_ts) \<and>
   children_of_class ''spinner''
     (the (exec [Submit 10, Fetch_resolved 0 True None, Blob_resolved 0, Timeout 0]
                (example_page Script_ts))) = [] \<and>
   children_of_class ''spinner''
     (start_animation (fst (fst (find_or_create_ring (example_page Script_ts))))
                      (snd (find_or_create_ring (example_page Script_ts))))
     = [Elem 1 []]"
proof -
  have a: "exec [Submit 10, Fetch_resolved 0 True None, Blob_resolved 0, Timeout 0]
        (example_page Script_ts) \<noteq> None"
    by code_simp
  then have b: "exec [Submit 10, Fetch_resolved 0 True None, Blob_resolved 0, Timeout 0]
        (example_page Script_ts)
     = Some (the (exec [Submit 10, Fetch_resolved 0 True None, Blob_resolved 0, Timeout 0]
        (example_page Script_ts)))"
    by simp
  have f: "fresh_refs (example_page Script_ts)"
    by code_simp
  have none: "children_of_class ''spinner'' (example_page Script_ts) = []"
    by code_simp
  have q: "querySelector (has_class ''progress-ring'') (store (example_page Script_ts))
             (childNodes (example_page Script_ts)) = None"
    by code_simp
  have sp: "fst (fst (find_or_create_ring (example_page Script_ts))) = 1"
    using find_or_create_none(1) [OF f q] by (simp add: example_page_def)
  from spinners_never_accumulate [OF b] a f none sp show ?thesis by auto
qed

section \<open>Collapsible panels: completion handlers\<close>

lemma frames_fold [simp]:
  "listeners (foldl (\<lambda>d h. d\<lparr>style_height := h\<rparr>) d hs) = listeners d"
  "invoked (foldl (\<lambda>d h. d\<lparr>style_height := h\<rparr>) d hs) = invoked d"
  "next_listener (foldl (\<lambda>d h. d\<lparr>style_height := h\<rparr>) d hs) = next_listener d"
  "has_open (foldl (\<lambda>d h. d\<lparr>style_height := h\<rparr>) d hs) = has_open d"
  by (induction hs arbitrary: d) auto

lemma animation_frame_sel [simp]:
  "listeners (animation_frame d) = listeners d"
  "invoked (animation_frame d) = invoked d"
  "next_listener (animation_frame d) = next_listener d"
  "has_open (animation_frame d) = has_open d"
  by (simp_all add: animation_frame_def)

lemma click_sel [simp]:
  "length (listeners (click s f d)) = Suc (length (listeners d))"
  "map fst (listeners (click s f d)) = map fst (listeners d) @ [next_listener d]"
  "invoked (click s f d) = invoked d"
  "next_listener (click s f d) = Suc (next_listener d)"
  by (simp_all add: click_def)

lemma dispatch:
  assumes "listeners d = ls" and "distinct (map fst ls)"
  shows "listeners (foldl (\<lambda>d l. if l \<in> set (listeners d) then handler l d else d) d ls) = [] \<and>
         invoked (foldl (\<lambda>d l. if l \<in> set (listeners d) then handler l d else d) d ls)
           = invoked d @ map fst ls \<and>
         next_listener (foldl (\<lambda>d l. if l \<in> set (listeners d) then handler l d else d) d ls)
           = next_listener d"
  using assms
proof (induction ls arbitrary: d)
  case Nil
  then show ?case by simp
next
  case (Cons l ls)
  from Cons.prems have "fst l \<notin> fst ` set ls" by simp
  then have "\<forall>k \<in> set ls. fst k \<noteq> fst l" by (metis imageI)
  then have keep: "filter (\<lambda>k. fst k \<noteq> fst l) ls = ls"
    by (simp add: filter_id_conv)
  with Cons.prems have h: "listeners (handler l d) = ls" "invoked (handler l d) = invoked d @ [fst l]"
     "next_listener (handler l d) = next_listener d"
    by (simp_all add: handler_def Let_def split: completion.splits)
  from Cons.prems have "distinct (map fst ls)" by simp
  from Cons.IH [OF h(1) this] h(2,3) Cons.prems(1) show ?case by simp
qed

lemma transitionend_sel:
  assumes "distinct (map fst (listeners d))"
  shows "listeners (transitionend d) = []"
    and "invoked (transitionend d) = invoked d @ map fst (listeners d)"
    and "next_listener (transitionend d) = next_listener d"
  using dispatch [OF refl assms] by (simp_all add: transitionend_def)

lemma panel_ok_step: "panel_ok d \<Longrightarrow> panel_ok (panel_step d e)"
proof (cases e)
  case (Click s f)
  assume "panel_ok d"
  then show ?thesis
    unfolding panel_ok_def Click by (auto simp: lessThan_Suc)
next
  case Frame
  assume "panel_ok d"
  then show ?thesis by (simp add: panel_ok_def Frame)
next
  case Transitionend
  assume ok: "panel_ok d"
  then have "distinct (map fst (listeners d))" by (simp add: panel_ok_def)
  from transitionend_sel [OF this] ok show ?thesis
    by (auto simp: panel_ok_def Transitionend)
qed

lemma panel_ok_run: "panel_ok d \<Longrightarrow> panel_ok (foldl panel_step d evs)"
  by (induction evs arbitrary: d) (simp_all add: panel_ok_step)

lemma panel_ok_new: "panel_ok (new_panel b)"
  by (simp add: panel_ok_def new_panel_def)

lemma clicks_counted:
  "panel_ok d \<Longrightarrow>
   next_listener (foldl panel_step d evs) = next_listener d + length (filter is_click evs)"
proof (induction evs arbitrary: d)
  case Nil
  then show ?case by simp
next
  case (Cons e evs)
  from Cons.prems have ok: "panel_ok (panel_step d e)" by (rule panel_ok_step)
  from Cons.prems have "distinct (map fst (listeners d))" by (simp add: panel_ok_def)
  then have "next_listener (panel_step d e) = next_listener d + (if is_click e then 1 else 0)"
    by (cases e) (simp_all add: is_click_def transitionend_sel)
  with Cons.IH [OF ok] show ?case by simp
qed


lemma double_click:
  "has_open (foldl panel_step (new_panel b)
       (Click s1 f1 # replicate m Frame @ Click s2 f2 # replicate n Frame @ [Transitionend])) = False \<and>
   listeners (foldl panel_step (new_panel b)
       (Click s1 f1 # replicate m Frame @ Click s2 f2 # replicate n Frame @ [Transitionend])) = [] \<and>
   invoked (foldl panel_step (new_panel b)
       (Click s1 f1 # replicate m Frame @ Click s2 f2 # replicate n Frame @ [Transitionend])) = [0, 1]"
proof -
  have fr: "has_open (foldl panel_step d (replicate k Frame)) = has_open d \<and>
      listeners (foldl panel_step d (replicate k Frame)) = listeners d \<and>
      invoked (foldl panel_step d (replicate k Frame)) = invoked d" for d k
    by (induction k arbitrary: d) simp_all
  define d1 where "d1 = foldl panel_step (click s1 f1 (new_panel b)) (replicate m Frame)"
  define d2 where "d2 = foldl panel_step (click s2 f2 d1) (replicate n Frame)"
  have d1: "has_open d1" "invoked d1 = []"
      "listeners d1 = [(0, if b then Collapse_done else Expand_done)]"
    unfolding d1_def by (simp_all add: fr click_def new_panel_def)
  have next1: "next_listener d1 = 1"
    using clicks_counted [OF panel_ok_new, of b "Click s1 f1 # replicate m Frame"]
    by (simp add: d1_def is_click_def new_panel_def)
  have d2: "has_open d2" "invoked d2 = []"
      "listeners d2 = [(0, if b then Collapse_done else Expand_done), (1, Collapse_done)]"
    unfolding d2_def using d1 next1 by (simp_all add: fr click_def)
  have "foldl panel_step (new_panel b)
       (Click s1 f1 # replicate m Frame @ Click s2 f2 # replicate n Frame @ [Transitionend])
     = transitionend d2"
    by (simp add: d1_def d2_def)
  moreover have "has_open (transitionend d2) = False \<and> listeners (transitionend d2) = [] \<and>
      invoked (transitionend d2) = [0, 1]"
    using d2 by (simp add: transitionend_def handler_def Let_def)
  ultimately show ?thesis by simp
qed

text \<open>
  What the handlers do keep, for a panel rendered open or closed and any sequence of
  clicks, frames and \<^verbatim>\<open>transitionend\<close> events: as many listeners were registered as
  there were clicks; no listener was called twice, and each listener ever registered
  is either still registered or was called once; a \<^verbatim>\<open>transitionend\<close> event, when
  one comes, calls every listener then registered and leaves none. Nothing but that
  event removes a listener.
\<close>

lemma panel_listeners_accounting:
  "(let d = foldl panel_step (new_panel b) evs in
      next_listener d = length (filter is_click evs) \<and>
      distinct (map fst (listeners d) @ invoked d) \<and>
      set (map fst (listeners d)) \<union> set (invoked d) = {..<next_listener d} \<and>
      length (listeners (click s f d)) = Suc (length (listeners d)) \<and>
      listeners (transitionend d) = [] \<and>
      invoked (transitionend d) = invoked d @ map fst (listeners d)) \<and>
   has_open (foldl panel_step (new_panel b)
       (Click s1 f1 # replicate m Frame @ Click s2 f2 # replicate n Frame @ [Transitionend])) = False \<and>
   listeners (foldl panel_step (new_panel b)
       (Click s1 f1 # replicate m Frame @ Click s2 f2 # replicate n Frame @ [Transitionend])) = [] \<and>
   invoked (foldl panel_step (new_panel b)
       (Click s1 f1 # replicate m Frame @ Click s2 f2 # replicate n Frame @ [Transitionend])) = [0, 1]"
proof -
  have ok: "panel_ok (foldl panel_step (new_panel b) evs)"
    by (rule panel_ok_run [OF panel_ok_new])
  then have dist: "distinct (map fst (listeners (foldl panel_step (new_panel b) evs)))"
    by (simp add: panel_ok_def)
  have "next_listener (foldl panel_step (new_panel b) evs) = length (filter is_click evs)"
    using clicks_counted [OF panel_ok_new, of b evs] by (simp add: new_panel_def)
  with ok transitionend_sel(1,2) [OF dist] double_click [of b s1 f1 m s2 f2 n]
  show ?thesis
    by (simp add: panel_ok_def Let_def)
qed

text \<open>
  Claim C8, evaluated where it fails: two clicks on the summary of a panel before any
  \<^verbatim>\<open>transitionend\<close> event, with a frame between them (\<^verbatim>\<open>offsetHeight\<close> 20,
  \<^verbatim>\<open>scrollHeight\<close> 100). The second click does not remove the listener of the first.
  On a panel rendered open, two listeners for a collapse are registered after the
  second click, and a further frame leaves both registered; the one
  \<^verbatim>\<open>transitionend\<close> event that follows calls both. On a panel rendered closed, the
  listener of the expansion is still registered beside the listener of the collapse,
  and the one event calls the first and then the second.
\<close>

theorem double_click_leaves_two_listeners:
  "listeners (foldl panel_step (new_panel True) [Click 20 100, Frame, Click 20 100])
     = [(0, Collapse_done), (1, Collapse_done)] \<and>
   invoked (foldl panel_step (new_panel True) [Click 20 100, Frame, Click 20 100]) = [] \<and>
   listeners (foldl panel_step (new_panel True) [Click 20 100, Frame, Click 20 100, Frame])
     = [(0, Collapse_done), (1, Collapse_done)] \<and>
   invoked (foldl panel_step (new_panel True)
              [Click 20 100, Frame, Click 20 100, Frame, Transitionend]) = [0, 1] \<and>
   listeners (foldl panel_step (new_panel False) [Click 20 100, Frame, Click 20 100])
     = [(0, Expand_done), (1, Collapse_done)] \<and>
   invoked (foldl panel_step (new_panel False)
              [Click 20 100, Frame, Click 20 100, Frame, Transitionend]) = [0, 1]"
  by (simp add: new_panel_def click_def animation_frame_def transitionend_def handler_def Let_def)

end
